theory Spec2Isabelle
  imports Complex_Main
begin

section \<open>The 2048 board engine of \<open>components/Game2048.tsx\<close>\<close>

text \<open>
  A board is the TypeScript \<open>number[][]\<close>: a list of rows, each a list of cells. Cells
  are modelled as unbounded integers; every value the game produces is far below
  \<open>2^53\<close>, where JavaScript numbers are exact integers. \<open>0\<close> is the empty cell.
\<close>

type_synonym row = "int list"
type_synonym board = "int list list"

definition GRID_SIZE :: nat where
  "GRID_SIZE = 4"

text \<open>
  Two things can take a computation out of \<open>number[][]\<close>. JavaScript throws a
  \<open>TypeError\<close> when a property is read from \<open>undefined\<close> (indexing a row that does not
  exist, destructuring a missing array element). Reading a cell that does not exist in an
  existing row throws nothing and yields \<open>undefined\<close>: where the source only compares such
  a value, the model reads cells as \<open>int option\<close> with \<open>None\<close> for \<open>undefined\<close>; where the
  source would store it in a board (\<open>transpose\<close> of a ragged board), the model stops with
  \<open>UndefinedCell\<close>, since the result is no longer a board of numbers.
\<close>

datatype error = TypeError | UndefinedCell

subsection \<open>\<open>moveRowLeft\<close>\<close>

text \<open>
  The merge loop of \<open>moveRowLeft\<close>, with its index \<open>i\<close>, the array it updates in place
  and the running score:
  \<^verbatim>\<open>for (let i = 0; i < newRow.length - 1; i++) {
    if (newRow[i] === newRow[i + 1]) {
      newRow[i] *= 2; score += newRow[i]; newRow[i + 1] = 0; i++;
    }
  }\<close>
\<close>

function mergeLoop :: "nat \<Rightarrow> row \<Rightarrow> int \<Rightarrow> row \<times> int" where
  "mergeLoop i newRow score =
     (if i + 1 < length newRow then
        (if newRow ! i = newRow ! (i + 1) then
           (let r1 = newRow[i := newRow ! i * 2];
                score1 = score + r1 ! i;
                r2 = r1[i + 1 := 0]
            in mergeLoop (i + 2) r2 score1)
         else mergeLoop (i + 1) newRow score)
      else (newRow, score))"
  by pat_completeness auto
termination
  by (relation "measure (\<lambda>(i, r, s). length r - i)") auto

text \<open>The padding loop: \<^verbatim>\<open>while (newRow.length < GRID_SIZE) newRow.push(0)\<close>.\<close>

function padLoop :: "row \<Rightarrow> row" where
  "padLoop newRow = (if length newRow < GRID_SIZE then padLoop (newRow @ [0]) else newRow)"
  by pat_completeness auto
termination
  by (relation "measure (\<lambda>r. GRID_SIZE - length r)") auto

definition moveRowLeft :: "row \<Rightarrow> row \<times> int" where
  "moveRowLeft r =
     (let newRow = filter (\<lambda>val. val \<noteq> 0) r;
          (merged, score) = mergeLoop 0 newRow 0;
          newRow2 = filter (\<lambda>val. val \<noteq> 0) merged
      in (padLoop newRow2, score))"

subsection \<open>The four moves\<close>

text \<open>
  \<open>moveLeft\<close> and \<open>moveRight\<close> loop over the rows, pushing each new row onto \<open>newBoard\<close>
  and adding its score to \<open>totalScore\<close>.
\<close>

fun moveLeftLoop :: "board \<Rightarrow> board \<Rightarrow> int \<Rightarrow> board \<times> int" where
  "moveLeftLoop [] newBoard totalScore = (newBoard, totalScore)"
| "moveLeftLoop (r # rest) newBoard totalScore =
     (let (newRow, score) = moveRowLeft r
      in moveLeftLoop rest (newBoard @ [newRow]) (totalScore + score))"

definition moveLeft :: "board \<Rightarrow> board \<times> int" where
  "moveLeft b = moveLeftLoop b [] 0"

fun moveRightLoop :: "board \<Rightarrow> board \<Rightarrow> int \<Rightarrow> board \<times> int" where
  "moveRightLoop [] newBoard totalScore = (newBoard, totalScore)"
| "moveRightLoop (r # rest) newBoard totalScore =
     (let reversedRow = rev r;
          (newRow, score) = moveRowLeft reversedRow
      in moveRightLoop rest (newBoard @ [rev newRow]) (totalScore + score))"

definition moveRight :: "board \<Rightarrow> board \<times> int" where
  "moveRight b = moveRightLoop b [] 0"

text \<open>
  \<^verbatim>\<open>board[0].map((_, i) => board.map((row) => row[i]))\<close>: one new row per index of the
  first row, holding that column. \<open>board[0]\<close> of an empty board is \<open>undefined\<close>, and
  \<open>.map\<close> on it throws. Rows longer than the first are cut; a shorter row gives
  \<open>undefined\<close> cells.
\<close>

definition transposeBoard :: "board \<Rightarrow> error + board" where
  "transposeBoard b =
     (case b of
        [] \<Rightarrow> Inl TypeError
      | r0 # _ \<Rightarrow>
          if list_ex (\<lambda>r. length r < length r0) b then Inl UndefinedCell
          else Inr (map (\<lambda>i. map (\<lambda>r. r ! i) b) [0..<length r0]))"

definition moveUp :: "board \<Rightarrow> error + board \<times> int" where
  "moveUp b =
     (case transposeBoard b of
        Inl e \<Rightarrow> Inl e
      | Inr transposed \<Rightarrow>
          (let (moved, totalScore) = moveLeft transposed
           in case transposeBoard moved of
                Inl e \<Rightarrow> Inl e
              | Inr newBoard \<Rightarrow> Inr (newBoard, totalScore)))"

definition moveDown :: "board \<Rightarrow> error + board \<times> int" where
  "moveDown b =
     (case transposeBoard b of
        Inl e \<Rightarrow> Inl e
      | Inr transposed \<Rightarrow>
          (let (moved, totalScore) = moveRight transposed
           in case transposeBoard moved of
                Inl e \<Rightarrow> Inl e
              | Inr newBoard \<Rightarrow> Inr (newBoard, totalScore)))"

subsection \<open>\<open>arraysEqual\<close> and \<open>isGameOver\<close>\<close>

text \<open>
  \<open>board[i][j]\<close> as JavaScript reads it: a \<open>TypeError\<close> when row \<open>i\<close> does not exist,
  \<open>undefined\<close> (\<open>None\<close>) when the row exists and column \<open>j\<close> does not.
\<close>

definition cellAt :: "board \<Rightarrow> nat \<Rightarrow> nat \<Rightarrow> error + int option" where
  "cellAt b i j =
     (if i < length b then Inr (if j < length (b ! i) then Some (b ! i ! j) else None)
      else Inl TypeError)"

text \<open>
  \<open>arraysEqual\<close> visits the cells of \<open>a\<close> in row-major order and returns \<open>false\<close> at the
  first cell where \<open>a[i][j] !== b[i][j]\<close>; cells of \<open>b\<close> outside the shape of \<open>a\<close> are never
  looked at.
\<close>

fun arraysEqualLoop :: "board \<Rightarrow> board \<Rightarrow> (nat \<times> nat) list \<Rightarrow> error + bool" where
  "arraysEqualLoop a b [] = Inr True"
| "arraysEqualLoop a b ((i, j) # rest) =
     (case cellAt b i j of
        Inl e \<Rightarrow> Inl e
      | Inr c \<Rightarrow> if Some (a ! i ! j) \<noteq> c then Inr False else arraysEqualLoop a b rest)"

definition arraysEqual :: "board \<Rightarrow> board \<Rightarrow> error + bool" where
  "arraysEqual a b =
     arraysEqualLoop a b [(i, j). i \<leftarrow> [0..<length a], j \<leftarrow> [0..<length (a ! i)]]"

text \<open>
  The two double loops of \<open>isGameOver\<close> run over the indices \<open>0..3 \<times> 0..3\<close> whatever the
  shape of the board. Each is a scan with an early \<open>return false\<close>; the scans below answer
  whether that early return was taken.
\<close>

definition gridIndices :: "(nat \<times> nat) list" where
  "gridIndices = [(i, j). i \<leftarrow> [0..<GRID_SIZE], j \<leftarrow> [0..<GRID_SIZE]]"

fun anyEmpty :: "board \<Rightarrow> (nat \<times> nat) list \<Rightarrow> error + bool" where
  "anyEmpty b [] = Inr False"
| "anyEmpty b ((i, j) # rest) =
     (case cellAt b i j of
        Inl e \<Rightarrow> Inl e
      | Inr c \<Rightarrow> if c = Some 0 then Inr True else anyEmpty b rest)"

definition sameCell :: "board \<Rightarrow> nat \<Rightarrow> nat \<Rightarrow> nat \<Rightarrow> nat \<Rightarrow> error + bool" where
  "sameCell b i j i' j' =
     (case cellAt b i j of
        Inl e \<Rightarrow> Inl e
      | Inr c \<Rightarrow> (case cellAt b i' j' of Inl e \<Rightarrow> Inl e | Inr c' \<Rightarrow> Inr (c = c')))"

fun anyMergeable :: "board \<Rightarrow> (nat \<times> nat) list \<Rightarrow> error + bool" where
  "anyMergeable b [] = Inr False"
| "anyMergeable b ((i, j) # rest) =
     (case (if j < GRID_SIZE - 1 then sameCell b i j i (j + 1) else Inr False) of
        Inl e \<Rightarrow> Inl e
      | Inr True \<Rightarrow> Inr True
      | Inr False \<Rightarrow>
          (case (if i < GRID_SIZE - 1 then sameCell b i j (i + 1) j else Inr False) of
             Inl e \<Rightarrow> Inl e
           | Inr True \<Rightarrow> Inr True
           | Inr False \<Rightarrow> anyMergeable b rest))"

definition isGameOver :: "board \<Rightarrow> error + bool" where
  "isGameOver b =
     (case anyEmpty b gridIndices of
        Inl e \<Rightarrow> Inl e
      | Inr True \<Rightarrow> Inr False
      | Inr False \<Rightarrow>
          (case anyMergeable b gridIndices of
             Inl e \<Rightarrow> Inl e
           | Inr True \<Rightarrow> Inr False
           | Inr False \<Rightarrow> Inr True))"

subsection \<open>\<open>addRandomTile\<close> and \<open>getInitialBoard\<close>\<close>

text \<open>
  \<open>Math.random()\<close> is the only source of non-determinism. A handler sees a sequence of
  draws \<open>rnd 0, rnd 1, \<dots>\<close>; the functions take the sequence and the position of the next
  draw and return the position they leave behind, so the number of draws made is
  observable. \<open>Math.random()\<close> promises \<open>0 \<le> rnd n < 1\<close>; a draw outside that range would
  select no element of \<open>emptyCells\<close>, and destructuring the resulting \<open>undefined\<close> throws.
\<close>

type_synonym draws = "nat \<Rightarrow> real"

definition emptyCells :: "board \<Rightarrow> (nat \<times> nat) list" where
  "emptyCells b = [(i, j). i \<leftarrow> [0..<length b], j \<leftarrow> [0..<length (b ! i)], b ! i ! j = 0]"

text \<open>
  The value semantics of \<open>addRandomTile\<close>: the returned board. The source writes the tile
  into the array it was given before copying it; what that does to the caller's array is
  the subject of the store model further down. The threshold \<open>0.9\<close> is the double nearest
  to \<open>9/10\<close>, which lies just above it, so a double is below the one exactly when it is below
  the other.
\<close>

definition addRandomTile :: "draws \<Rightarrow> nat \<Rightarrow> board \<Rightarrow> error + board \<times> nat" where
  "addRandomTile rnd p b =
     (let cells = emptyCells b
      in if length cells = 0 then Inr (b, p)
         else
           (let k = \<lfloor>rnd p * real (length cells)\<rfloor>
            in if k < 0 \<or> int (length cells) \<le> k then Inl TypeError
               else
                 (let (x, y) = cells ! nat k;
                      tile = (if rnd (p + 1) < 9 / 10 then 2 else 4)
                  in Inr (b[x := (b ! x)[y := tile]], p + 2))))"

definition getInitialBoard :: "draws \<Rightarrow> nat \<Rightarrow> error + board \<times> nat" where
  "getInitialBoard rnd p =
     (let b = replicate GRID_SIZE (replicate GRID_SIZE 0)
      in case addRandomTile rnd p b of
           Inl e \<Rightarrow> Inl e
         | Inr (b1, p1) \<Rightarrow> addRandomTile rnd p1 b1)"

subsection \<open>The store: what the functions do to the caller's arrays\<close>

text \<open>
  A JavaScript array is an object on the heap, and a \<open>number[][]\<close> is an array of
  references to row arrays. The store is a list of objects; a reference is an index into
  it, and allocation appends. \<open>Nums\<close> is a \<open>number[]\<close>, \<open>Refs\<close> an array of references.
\<close>

datatype obj = Nums "int list" | Refs "nat list"

type_synonym heap = "obj list"

definition alloc :: "heap \<Rightarrow> obj \<Rightarrow> heap \<times> nat" where
  "alloc h v = (h @ [v], length h)"

definition numsAt :: "heap \<Rightarrow> nat \<Rightarrow> int list option" where
  "numsAt h a =
     (if a < length h then (case h ! a of Nums xs \<Rightarrow> Some xs | Refs rs \<Rightarrow> None) else None)"

definition refsAt :: "heap \<Rightarrow> nat \<Rightarrow> nat list option" where
  "refsAt h a =
     (if a < length h then (case h ! a of Nums xs \<Rightarrow> None | Refs rs \<Rightarrow> Some rs) else None)"

fun rowsAt :: "heap \<Rightarrow> nat list \<Rightarrow> board option" where
  "rowsAt h [] = Some []"
| "rowsAt h (r # rs) =
     (case numsAt h r of
        None \<Rightarrow> None
      | Some xs \<Rightarrow> (case rowsAt h rs of None \<Rightarrow> None | Some xss \<Rightarrow> Some (xs # xss)))"

text \<open>The board a reference denotes: the contents of the rows it refers to.\<close>

definition boardAt :: "heap \<Rightarrow> nat \<Rightarrow> board option" where
  "boardAt h a = (case refsAt h a of None \<Rightarrow> None | Some rs \<Rightarrow> rowsAt h rs)"

text \<open>
  \<open>moveRowLeft\<close> on the store. \<open>row.filter\<close> allocates \<open>newRow\<close>; the merge loop writes into
  that array; the second \<open>filter\<close> allocates again; \<open>push\<close> extends the second array in
  place. The argument \<open>row\<close> is only read. A reference that holds no \<open>number[]\<close> cannot
  arise in the typed program; the model answers \<open>TypeError\<close>.
\<close>

definition moveRowLeft_h :: "heap \<Rightarrow> nat \<Rightarrow> error + heap \<times> nat \<times> int" where
  "moveRowLeft_h h r =
     (case numsAt h r of
        None \<Rightarrow> Inl TypeError
      | Some xs \<Rightarrow>
          (let (h1, newRow) = alloc h (Nums (filter (\<lambda>val. val \<noteq> 0) xs));
               (merged, score) = mergeLoop 0 (filter (\<lambda>val. val \<noteq> 0) xs) 0;
               h2 = h1[newRow := Nums merged];
               (h3, newRow2) = alloc h2 (Nums (filter (\<lambda>val. val \<noteq> 0) merged));
               h4 = h3[newRow2 := Nums (padLoop (filter (\<lambda>val. val \<noteq> 0) merged))]
           in Inr (h4, newRow2, score)))"

text \<open>
  \<open>moveLeft\<close>: \<open>newBoard = []\<close> is a fresh array; each iteration pushes the reference of
  the new row onto it. The row references of \<open>board\<close> are read once, since nothing in the
  loop writes to \<open>board\<close>.
\<close>

fun moveLeftLoop_h :: "heap \<Rightarrow> nat list \<Rightarrow> nat \<Rightarrow> int \<Rightarrow> error + heap \<times> int" where
  "moveLeftLoop_h h [] newBoard totalScore = Inr (h, totalScore)"
| "moveLeftLoop_h h (r # rest) newBoard totalScore =
     (case moveRowLeft_h h r of
        Inl e \<Rightarrow> Inl e
      | Inr (h1, newRow, score) \<Rightarrow>
          (case refsAt h1 newBoard of
             None \<Rightarrow> Inl TypeError
           | Some rs \<Rightarrow>
               moveLeftLoop_h (h1[newBoard := Refs (rs @ [newRow])]) rest newBoard
                 (totalScore + score)))"

definition moveLeft_h :: "heap \<Rightarrow> nat \<Rightarrow> error + heap \<times> nat \<times> int" where
  "moveLeft_h h b =
     (case refsAt h b of
        None \<Rightarrow> Inl TypeError
      | Some rows \<Rightarrow>
          (let (h0, newBoard) = alloc h (Refs [])
           in case moveLeftLoop_h h0 rows newBoard 0 of
                Inl e \<Rightarrow> Inl e
              | Inr (h', totalScore) \<Rightarrow> Inr (h', newBoard, totalScore)))"

text \<open>
  \<open>moveRight\<close>: \<open>[...board[i]]\<close> allocates a copy, \<open>reverse()\<close> reverses the copy in place,
  and \<open>newRow.reverse()\<close> reverses the array \<open>moveRowLeft\<close> returned in place.
\<close>

fun moveRightLoop_h :: "heap \<Rightarrow> nat list \<Rightarrow> nat \<Rightarrow> int \<Rightarrow> error + heap \<times> int" where
  "moveRightLoop_h h [] newBoard totalScore = Inr (h, totalScore)"
| "moveRightLoop_h h (r # rest) newBoard totalScore =
     (case numsAt h r of
        None \<Rightarrow> Inl TypeError
      | Some xs \<Rightarrow>
          (let (h1, reversedRow) = alloc h (Nums xs);
               h2 = h1[reversedRow := Nums (rev xs)]
           in case moveRowLeft_h h2 reversedRow of
                Inl e \<Rightarrow> Inl e
              | Inr (h3, newRow, score) \<Rightarrow>
                  (case numsAt h3 newRow of
                     None \<Rightarrow> Inl TypeError
                   | Some ys \<Rightarrow>
                       (let h4 = h3[newRow := Nums (rev ys)]
                        in case refsAt h4 newBoard of
                             None \<Rightarrow> Inl TypeError
                           | Some rs \<Rightarrow>
                               moveRightLoop_h (h4[newBoard := Refs (rs @ [newRow])]) rest
                                 newBoard (totalScore + score)))))"

definition moveRight_h :: "heap \<Rightarrow> nat \<Rightarrow> error + heap \<times> nat \<times> int" where
  "moveRight_h h b =
     (case refsAt h b of
        None \<Rightarrow> Inl TypeError
      | Some rows \<Rightarrow>
          (let (h0, newBoard) = alloc h (Refs [])
           in case moveRightLoop_h h0 rows newBoard 0 of
                Inl e \<Rightarrow> Inl e
              | Inr (h', totalScore) \<Rightarrow> Inr (h', newBoard, totalScore)))"

text \<open>
  Both \<open>map\<close>s of \<open>transpose\<close> allocate: one new row per column, then the array of their
  references. \<open>board.map((row) => [...row])\<close> in \<open>addRandomTile\<close> allocates the same way.
\<close>

fun allocRows :: "heap \<Rightarrow> board \<Rightarrow> heap \<times> nat list" where
  "allocRows h [] = (h, [])"
| "allocRows h (xs # xss) =
     (let (h1, a) = alloc h (Nums xs);
          (h2, as) = allocRows h1 xss
      in (h2, a # as))"

definition transpose_h :: "heap \<Rightarrow> nat \<Rightarrow> error + heap \<times> nat" where
  "transpose_h h b =
     (case boardAt h b of
        None \<Rightarrow> Inl TypeError
      | Some rows \<Rightarrow>
          (case transposeBoard rows of
             Inl e \<Rightarrow> Inl e
           | Inr t \<Rightarrow>
               (let (h1, rs) = allocRows h t;
                    (h2, a) = alloc h1 (Refs rs)
                in Inr (h2, a))))"

definition moveUp_h :: "heap \<Rightarrow> nat \<Rightarrow> error + heap \<times> nat \<times> int" where
  "moveUp_h h b =
     (case transpose_h h b of
        Inl e \<Rightarrow> Inl e
      | Inr (h1, transposed) \<Rightarrow>
          (case moveLeft_h h1 transposed of
             Inl e \<Rightarrow> Inl e
           | Inr (h2, moved, totalScore) \<Rightarrow>
               (case transpose_h h2 moved of
                  Inl e \<Rightarrow> Inl e
                | Inr (h3, newBoard) \<Rightarrow> Inr (h3, newBoard, totalScore))))"

definition moveDown_h :: "heap \<Rightarrow> nat \<Rightarrow> error + heap \<times> nat \<times> int" where
  "moveDown_h h b =
     (case transpose_h h b of
        Inl e \<Rightarrow> Inl e
      | Inr (h1, transposed) \<Rightarrow>
          (case moveRight_h h1 transposed of
             Inl e \<Rightarrow> Inl e
           | Inr (h2, moved, totalScore) \<Rightarrow>
               (case transpose_h h2 moved of
                  Inl e \<Rightarrow> Inl e
                | Inr (h3, newBoard) \<Rightarrow> Inr (h3, newBoard, totalScore))))"

definition moveSwitch_h ::
  "string \<Rightarrow> heap \<Rightarrow> nat \<Rightarrow> (error + heap \<times> nat \<times> int) option" where
  "moveSwitch_h direction h b =
     (if direction = ''up'' then Some (moveUp_h h b)
      else if direction = ''down'' then Some (moveDown_h h b)
      else if direction = ''left'' then Some (moveLeft_h h b)
      else if direction = ''right'' then Some (moveRight_h h b)
      else None)"


subsection \<open>The controller: the state of \<open>CanvasGame\<close>, \<open>handleMove\<close> and \<open>newGame\<close>\<close>

record game =
  board :: board
  score :: int
  bestScore :: int
  gameOver :: bool
  gameStarted :: bool

text \<open>The \<open>switch\<close> of \<open>handleMove\<close>; \<open>None\<close> is its \<open>default: return\<close>.\<close>

definition moveSwitch :: "string \<Rightarrow> board \<Rightarrow> (error + board \<times> int) option" where
  "moveSwitch direction b =
     (if direction = ''up'' then Some (moveUp b)
      else if direction = ''down'' then Some (moveDown b)
      else if direction = ''left'' then Some (Inr (moveLeft b))
      else if direction = ''right'' then Some (Inr (moveRight b))
      else None)"

text \<open>
  One call of \<open>handleMove\<close>, from the state the handler closes over to the state after
  its \<open>set\<dots>\<close> calls, together with the position in the sequence of draws. \<open>Inl\<close> is an
  exception escaping the handler. The controller is modelled on board values:
  \<open>addRandomTile\<close> is only ever handed a board that was just built (\<open>newBoard\<close> here, the
  zero board in \<open>getInitialBoard\<close>), so its write into that board never reaches the board
  held in the state.
\<close>

definition handleMove :: "draws \<Rightarrow> string \<Rightarrow> game \<times> nat \<Rightarrow> error + game \<times> nat" where
  "handleMove rnd direction gp =
     (let (g, p) = gp
      in if gameOver g then Inr (g, p)
         else
           (case moveSwitch direction (board g) of
              None \<Rightarrow> Inr (g, p)
            | Some (Inl e) \<Rightarrow> Inl e
            | Some (Inr (newBoard, totalScore)) \<Rightarrow>
                (case arraysEqual (board g) newBoard of
                   Inl e \<Rightarrow> Inl e
                 | Inr True \<Rightarrow> Inr (g, p)
                 | Inr False \<Rightarrow>
                     (case addRandomTile rnd p newBoard of
                        Inl e \<Rightarrow> Inl e
                      | Inr (boardWithNewTile, p') \<Rightarrow>
                          (let newScore = score g + totalScore;
                               g1 = g\<lparr>score := newScore\<rparr>;
                               g2 = (if newScore > bestScore g then g1\<lparr>bestScore := newScore\<rparr>
                                     else g1);
                               g3 = g2\<lparr>board := boardWithNewTile\<rparr>
                           in case isGameOver boardWithNewTile of
                                Inl e \<Rightarrow> Inl e
                              | Inr True \<Rightarrow> Inr (g3\<lparr>gameOver := True\<rparr>, p')
                              | Inr False \<Rightarrow> Inr (g3, p'))))))"

definition newGame :: "draws \<Rightarrow> game \<times> nat \<Rightarrow> error + game \<times> nat" where
  "newGame rnd gp =
     (let (g, p) = gp
      in case getInitialBoard rnd p of
           Inl e \<Rightarrow> Inl e
         | Inr (b, p') \<Rightarrow> Inr (g\<lparr>board := b, score := 0, gameOver := False\<rparr>, p'))"

text \<open>The state of a freshly mounted component: the initial values of its \<open>useState\<close> calls.\<close>

definition initialGame :: "draws \<Rightarrow> nat \<Rightarrow> error + game \<times> nat" where
  "initialGame rnd p =
     (case getInitialBoard rnd p of
        Inl e \<Rightarrow> Inl e
      | Inr (b, p') \<Rightarrow>
          Inr (\<lparr>board = b, score = 0, bestScore = 0, gameOver = False, gameStarted = False\<rparr>, p'))"

subsection \<open>The line primitive as the specification words it\<close>

text \<open>
  \<open>slideAndMergeLine\<close> follows the specification's four steps: remove zeros keeping the
  order; scan left to right, replacing an equal pair by its sum and a zero and moving
  past both; remove the zeros again; right-pad with zeros to length four.
\<close>

definition compact :: "row \<Rightarrow> row" where
  "compact line = filter (\<lambda>v. v \<noteq> 0) line"

fun mergePass :: "row \<Rightarrow> row \<times> int" where
  "mergePass (x # y # rest) =
     (if x = y then (let (r, s) = mergePass rest in ((x + y) # 0 # r, (x + y) + s))
      else (let (r, s) = mergePass (y # rest) in (x # r, s)))"
| "mergePass line = (line, 0)"

definition padTo :: "nat \<Rightarrow> row \<Rightarrow> row" where
  "padTo n line = line @ replicate (n - length line) 0"

definition slideAndMergeLine :: "row \<Rightarrow> row \<times> int" where
  "slideAndMergeLine line =
     (let (merged, scoreDelta) = mergePass (compact line)
      in (padTo 4 (compact merged), scoreDelta))"

section \<open>Vocabulary for the properties\<close>

text \<open>The sum of all cells of a board.\<close>

definition boardTotal :: "board \<Rightarrow> int" where
  "boardTotal b = sum_list (map sum_list b)"

text \<open>A board of the game: \<open>GRID_SIZE\<close> rows of \<open>GRID_SIZE\<close> cells.\<close>

definition wf_board :: "board \<Rightarrow> bool" where
  "wf_board b = (length b = GRID_SIZE \<and> list_all (\<lambda>r. length r = GRID_SIZE) b)"

text \<open>The four columns of a board, which is what \<open>transposeBoard\<close> returns on a game board.\<close>

definition columns :: "board \<Rightarrow> board" where
  "columns b = map (\<lambda>i. map (\<lambda>r. r ! i) b) [0..<4]"

text \<open>
  Some two horizontally or vertically adjacent cells of the 4x4 grid hold the same
  non-zero value.
\<close>

definition adjacentEqual :: "board \<Rightarrow> bool" where
  "adjacentEqual b =
     ((\<exists>i<4. \<exists>j<3. b ! i ! j \<noteq> 0 \<and> b ! i ! j = b ! i ! (j + 1))
      \<or> (\<exists>i<3. \<exists>j<4. b ! i ! j \<noteq> 0 \<and> b ! i ! j = b ! (i + 1) ! j))"

text \<open>
  The events the controller receives: a key press with its direction, and the New Game
  or Restart button. Each handler invocation sees its own sequence of \<open>Math.random()\<close>
  values (renders between two events draw from the generator as well). \<open>run\<close> feeds a
  list of events to the controller, each handler working on the state the previous one
  left. \<open>event_ok\<close> says that the draws a handler uses to pick a cell are in \<open>[0, 1)\<close>.
\<close>

datatype event = Move string draws | Reset draws

fun step :: "event \<Rightarrow> game \<Rightarrow> error + game" where
  "step (Move direction rnd) g =
     (case handleMove rnd direction (g, 0) of Inl e \<Rightarrow> Inl e | Inr (g', p) \<Rightarrow> Inr g')"
| "step (Reset rnd) g =
     (case newGame rnd (g, 0) of Inl e \<Rightarrow> Inl e | Inr (g', p) \<Rightarrow> Inr g')"

fun run :: "event list \<Rightarrow> game \<Rightarrow> error + game" where
  "run [] g = Inr g"
| "run (e # es) g = (case step e g of Inl x \<Rightarrow> Inl x | Inr g' \<Rightarrow> run es g')"

fun event_ok :: "event \<Rightarrow> bool" where
  "event_ok (Move direction rnd) = (0 \<le> rnd 0 \<and> rnd 0 < 1)"
| "event_ok (Reset rnd) = (0 \<le> rnd 0 \<and> rnd 0 < 1 \<and> 0 \<le> rnd 2 \<and> rnd 2 < 1)"

text \<open>A cell value of the game: \<open>0\<close> or a power of two that is at least \<open>2\<close>.\<close>

definition tileValue :: "int \<Rightarrow> bool" where
  "tileValue c = (c = 0 \<or> (\<exists>k. 1 \<le> k \<and> c = 2 ^ k))"

text \<open>
  The boards that can arise from \<open>getInitialBoard\<close> by the four moves of the switch and
  by \<open>addRandomTile\<close>, whatever the random draws are.
\<close>

inductive reachable :: "board \<Rightarrow> bool" where
  initial: "getInitialBoard rnd p = Inr (b, p') \<Longrightarrow> reachable b"
| move: "reachable b \<Longrightarrow> moveSwitch d b = Some (Inr (b', sc)) \<Longrightarrow> reachable b'"
| spawn: "reachable b \<Longrightarrow> addRandomTile rnd p b = Inr (b', p') \<Longrightarrow> reachable b'"

definition allTiles :: "board \<Rightarrow> bool" where
  "allTiles b = list_all (list_all tileValue) b"

text \<open>
  \<open>unchanged h h'\<close>: every object of \<open>h\<close> is still in \<open>h'\<close>, under the same reference and
  with the same contents. \<open>sameExcept a h h'\<close> allows the object at \<open>a\<close> to differ.
\<close>

definition unchanged :: "heap \<Rightarrow> heap \<Rightarrow> bool" where
  "unchanged h h' = (length h \<le> length h' \<and> take (length h) h' = h)"

definition sameExcept :: "nat \<Rightarrow> heap \<Rightarrow> heap \<Rightarrow> bool" where
  "sameExcept a h h' = (length h \<le> length h' \<and> (\<forall>i<length h. i \<noteq> a \<longrightarrow> h' ! i = h ! i))"

text \<open>
  \<open>freshBoard h h' r\<close>: in \<open>h'\<close> the reference \<open>r\<close> is a board none of whose arrays existed
  in \<open>h\<close>. The outer array and every row it refers to were allocated after \<open>h\<close>, and the
  rows are pairwise different objects: a deep copy, sharing nothing with any board of \<open>h\<close>.
\<close>

definition freshBoard :: "heap \<Rightarrow> heap \<Rightarrow> nat \<Rightarrow> bool" where
  "freshBoard h h' r =
     (length h \<le> r
      \<and> (\<exists>rs. refsAt h' r = Some rs \<and> distinct rs \<and> (\<forall>a \<in> set rs. length h \<le> a)))"


section \<open>Properties\<close>

subsection \<open>The loops in closed form\<close>

lemma padLoop_eq: "padLoop r = r @ replicate (GRID_SIZE - length r) 0"
proof (induction r rule: padLoop.induct)
  case (1 newRow)
  show ?case
  proof (cases "length newRow < GRID_SIZE")
    case True
    then have "GRID_SIZE - length newRow = Suc (GRID_SIZE - Suc (length newRow))"
      by simp
    with True 1 show ?thesis
      by (subst padLoop.simps) (simp add: replicate_app_Cons_same)
  next
    case False
    then show ?thesis by (subst padLoop.simps) simp
  qed
qed

declare mergeLoop.simps [simp del] padLoop.simps [simp del]

lemma mergePass_short: "length r < 2 \<Longrightarrow> mergePass r = (r, 0)"
  by (cases r rule: mergePass.cases) auto

lemma mergeLoop_mergePass:
  "i \<le> length r \<Longrightarrow>
   mergeLoop i r s = (take i r @ fst (mergePass (drop i r)), s + snd (mergePass (drop i r)))"
proof (induction i r s rule: mergeLoop.induct)
  case (1 i newRow score)
  show ?case
  proof (cases "i + 1 < length newRow")
    case False
    then have "mergePass (drop i newRow) = (drop i newRow, 0)"
      by (intro mergePass_short) simp
    with False show ?thesis
      by (subst mergeLoop.simps) simp
  next
    case True
    then have d: "drop i newRow = newRow ! i # newRow ! (i + 1) # drop (i + 2) newRow"
      by (simp add: Cons_nth_drop_Suc)
    show ?thesis
    proof (cases "newRow ! i = newRow ! (i + 1)")
      case eq: True
      define r2 where "r2 = newRow[i := newRow ! i * 2, i + 1 := 0]"
      have t: "take (i + 2) r2 = take i newRow @ [newRow ! i * 2, 0]"
        using True by (simp add: r2_def take_Suc_conv_app_nth nth_list_update)
      have dr: "drop (i + 2) r2 = drop (i + 2) newRow"
        by (simp add: r2_def)
      have "mergeLoop i newRow score = mergeLoop (i + 2) r2 (score + newRow ! i * 2)"
        using True eq by (subst mergeLoop.simps) (simp add: r2_def Let_def)
      also have "\<dots> = (take (i + 2) r2 @ fst (mergePass (drop (i + 2) r2)),
                      score + newRow ! i * 2 + snd (mergePass (drop (i + 2) r2)))"
        using "1.IH"(1) [OF True eq refl refl refl] True by (simp add: r2_def)
      finally have e: "mergeLoop i newRow score =
          (take (i + 2) r2 @ fst (mergePass (drop (i + 2) r2)),
           score + newRow ! i * 2 + snd (mergePass (drop (i + 2) r2)))" .
      show ?thesis
        unfolding e t dr using eq by (simp add: d split: prod.splits)
    next
      case ne: False
      have "mergeLoop i newRow score = mergeLoop (i + 1) newRow score"
        using True ne by (subst mergeLoop.simps) simp
      also have "\<dots> = (take (i + 1) newRow @ fst (mergePass (drop (i + 1) newRow)),
                      score + snd (mergePass (drop (i + 1) newRow)))"
        using "1.IH"(2) [OF True ne] True by simp
      finally have e: "mergeLoop i newRow score =
          (take (i + 1) newRow @ fst (mergePass (drop (i + 1) newRow)),
           score + snd (mergePass (drop (i + 1) newRow)))" .
      have d1: "drop (Suc i) newRow = newRow ! Suc i # drop (Suc (Suc i)) newRow"
        using True by (simp add: Cons_nth_drop_Suc)
      show ?thesis
        unfolding e using ne True by (simp add: d d1 take_Suc_conv_app_nth split: prod.splits)
    qed
  qed
qed

lemma moveRowLeft_closed:
  "moveRowLeft r =
     (padTo 4 (compact (fst (mergePass (compact r)))), snd (mergePass (compact r)))"
  by (simp add: moveRowLeft_def mergeLoop_mergePass padLoop_eq padTo_def compact_def
      GRID_SIZE_def Let_def split: prod.splits)

lemma moveLeftLoop_closed:
  "moveLeftLoop b acc t =
     (acc @ map (\<lambda>r. fst (moveRowLeft r)) b, t + sum_list (map (\<lambda>r. snd (moveRowLeft r)) b))"
  by (induction b arbitrary: acc t) (simp_all add: split: prod.splits)

lemma moveLeft_closed:
  "moveLeft b =
     (map (\<lambda>r. fst (moveRowLeft r)) b, sum_list (map (\<lambda>r. snd (moveRowLeft r)) b))"
  by (simp add: moveLeft_def moveLeftLoop_closed)

lemma moveRightLoop_closed:
  "moveRightLoop b acc t =
     (acc @ map (\<lambda>r. rev (fst (moveRowLeft (rev r)))) b,
      t + sum_list (map (\<lambda>r. snd (moveRowLeft (rev r))) b))"
  by (induction b arbitrary: acc t) (simp_all add: split: prod.splits)

lemma moveRight_closed:
  "moveRight b =
     (map (\<lambda>r. rev (fst (moveRowLeft (rev r)))) b,
      sum_list (map (\<lambda>r. snd (moveRowLeft (rev r))) b))"
  by (simp add: moveRight_def moveRightLoop_closed)

subsection \<open>C2: \<open>moveRowLeft\<close> is the specification's line primitive\<close>

text \<open>
  Claim C2. \<open>moveRowLeft\<close> computes what the specification describes for
  \<open>slideAndMergeLine\<close>: compact the zeros away keeping the order, make one left-to-right
  merge pass in which a merged tile does not merge again, compact again, and right-pad
  with zeros to length four. The three rows of the specification come out as stated.
\<close>

theorem moveRowLeft_slideAndMergeLine:
  "moveRowLeft r = slideAndMergeLine r
   \<and> moveRowLeft [2, 2, 2, 2] = ([4, 4, 0, 0], 8)
   \<and> moveRowLeft [2, 0, 2, 2] = ([4, 2, 0, 0], 4)
   \<and> moveRowLeft [4, 4, 4, 4] = ([8, 8, 0, 0], 16)"
  by (simp add: moveRowLeft_closed slideAndMergeLine_def compact_def padTo_def
      eval_nat_numeral split: prod.splits)

subsection \<open>Shape\<close>

lemma length_mergePass: "length (fst (mergePass r)) = length r"
  by (induction r rule: mergePass.induct) (auto split: prod.splits)

lemma length_compact_le: "length (compact r) \<le> length r"
  by (simp add: compact_def)

lemma length_moveRowLeft:
  "length r \<le> 4 \<Longrightarrow> length (fst (moveRowLeft r)) = 4"
proof -
  assume "length r \<le> 4"
  have "length (compact (fst (mergePass (compact r)))) \<le> length (fst (mergePass (compact r)))"
    by (rule length_compact_le)
  also have "\<dots> \<le> length r"
    by (simp add: length_mergePass length_compact_le)
  finally show ?thesis
    using \<open>length r \<le> 4\<close> by (simp add: moveRowLeft_closed padTo_def)
qed

lemma wf_board_moveLeft: "wf_board b \<Longrightarrow> wf_board (fst (moveLeft b))"
  by (simp add: wf_board_def moveLeft_closed list_all_iff GRID_SIZE_def length_moveRowLeft)

lemma wf_board_moveRight: "wf_board b \<Longrightarrow> wf_board (fst (moveRight b))"
  by (simp add: wf_board_def moveRight_closed list_all_iff GRID_SIZE_def length_moveRowLeft)

lemma transposeBoard_wf:
  assumes "wf_board b"
  shows "transposeBoard b = Inr (map (\<lambda>i. map (\<lambda>r. r ! i) b) [0..<4])"
proof -
  from assms obtain r0 rs where b: "b = r0 # rs"
    by (cases b) (auto simp: wf_board_def GRID_SIZE_def)
  from assms have "\<not> list_ex (\<lambda>r. length r < length r0) b" and "length r0 = 4"
    by (auto simp: wf_board_def GRID_SIZE_def list_all_iff list_ex_iff b)
  then show ?thesis
    unfolding transposeBoard_def by (simp add: b)
qed

lemma wf_board_transposed:
  "wf_board b \<Longrightarrow> wf_board (map (\<lambda>i. map (\<lambda>r. r ! i) b) [0..<4])"
  by (simp add: wf_board_def GRID_SIZE_def list_all_iff)

lemma transposed_involutive:
  assumes "wf_board b"
  shows "map (\<lambda>i. map (\<lambda>r. r ! i) (map (\<lambda>i. map (\<lambda>r. r ! i) b) [0..<4])) [0..<4] = b"
proof (rule nth_equalityI)
  show "length (map (\<lambda>i. map (\<lambda>r. r ! i) (map (\<lambda>i. map (\<lambda>r. r ! i) b) [0..<4])) [0..<4]) = length b"
    using assms by (simp add: wf_board_def GRID_SIZE_def)
next
  fix i assume "i < length (map (\<lambda>i. map (\<lambda>r. r ! i) (map (\<lambda>i. map (\<lambda>r. r ! i) b) [0..<4])) [0..<4])"
  then have i: "i < 4" by simp
  with assms have li: "length (b ! i) = 4" and lb: "length b = 4"
    by (auto simp: wf_board_def GRID_SIZE_def list_all_length)
  have "map (\<lambda>r. r ! i) (map (\<lambda>i. map (\<lambda>r. r ! i) b) [0..<4]) = b ! i"
    by (rule nth_equalityI) (use i li lb in \<open>simp_all\<close>)
  with i show "map (\<lambda>i. map (\<lambda>r. r ! i) (map (\<lambda>i. map (\<lambda>r. r ! i) b) [0..<4])) [0..<4] ! i = b ! i"
    by simp
qed

lemma transposeBoard_twice:
  assumes "wf_board b" "transposeBoard b = Inr t"
  shows "wf_board t \<and> transposeBoard t = Inr b"
proof -
  from assms have t: "t = map (\<lambda>i. map (\<lambda>r. r ! i) b) [0..<4]"
    by (simp add: transposeBoard_wf)
  have wt: "wf_board t" unfolding t by (rule wf_board_transposed [OF assms(1)])
  show ?thesis
    using wt transposeBoard_wf [OF wt] transposed_involutive [OF assms(1)] by (simp add: t)
qed

lemma transposeBoard_wf_ex:
  "wf_board b \<Longrightarrow> \<exists>t. transposeBoard b = Inr t \<and> wf_board t \<and> transposeBoard t = Inr b"
  using transposeBoard_twice transposeBoard_wf by blast

subsection \<open>Totals\<close>







lemma boardTotal_columns:
  "\<forall>r \<in> set b. length r = n \<Longrightarrow>
   boardTotal (map (\<lambda>i. map (\<lambda>r. r ! i) b) [0..<n]) = boardTotal b"
proof (induction b)
  case Nil
  then show ?case by (simp add: boardTotal_def comp_def)
next
  case (Cons r b)
  then have n: "length r = n" by simp
  have "boardTotal (map (\<lambda>i. map (\<lambda>r. r ! i) (r # b)) [0..<n])
        = sum_list (map (\<lambda>i. r ! i + sum_list (map (\<lambda>r. r ! i) b)) [0..<n])"
    by (simp add: boardTotal_def comp_def)
  also have "\<dots> = sum_list (map (\<lambda>i. r ! i) [0..<n])
                  + sum_list (map (\<lambda>i. sum_list (map (\<lambda>r. r ! i) b)) [0..<n])"
    by (simp add: sum_list_addf)
  also have "map (\<lambda>i. r ! i) [0..<n] = r"
    using map_nth [of r] n by simp
  also have "sum_list (map (\<lambda>i. sum_list (map (\<lambda>r. r ! i) b)) [0..<n])
             = boardTotal (map (\<lambda>i. map (\<lambda>r. r ! i) b) [0..<n])"
    by (simp add: boardTotal_def comp_def)
  finally show ?case
    using Cons by (simp add: boardTotal_def)
qed

lemma boardTotal_transposeBoard:
  "wf_board b \<Longrightarrow> transposeBoard b = Inr t \<Longrightarrow> boardTotal t = boardTotal b"
  using boardTotal_columns [of b 4]
  by (auto simp: transposeBoard_wf wf_board_def GRID_SIZE_def list_all_iff)

lemma moveUp_wf:
  assumes "wf_board b"
  shows "moveUp b = Inr (columns (fst (moveLeft (columns b))), snd (moveLeft (columns b)))"
proof -
  have 1: "transposeBoard b = Inr (columns b)"
    using assms by (simp add: transposeBoard_wf columns_def)
  have "wf_board (columns b)"
    using assms by (simp add: wf_board_transposed columns_def)
  then have "wf_board (fst (moveLeft (columns b)))"
    by (rule wf_board_moveLeft)
  then have 2: "transposeBoard (fst (moveLeft (columns b))) = Inr (columns (fst (moveLeft (columns b))))"
    by (simp add: transposeBoard_wf columns_def)
  show ?thesis
    using 2 by (cases "moveLeft (columns b)") (simp add: moveUp_def 1)
qed

lemma moveDown_wf:
  assumes "wf_board b"
  shows "moveDown b = Inr (columns (fst (moveRight (columns b))), snd (moveRight (columns b)))"
proof -
  have 1: "transposeBoard b = Inr (columns b)"
    using assms by (simp add: transposeBoard_wf columns_def)
  have "wf_board (columns b)"
    using assms by (simp add: wf_board_transposed columns_def)
  then have "wf_board (fst (moveRight (columns b)))"
    by (rule wf_board_moveRight)
  then have 2: "transposeBoard (fst (moveRight (columns b))) = Inr (columns (fst (moveRight (columns b))))"
    by (simp add: transposeBoard_wf columns_def)
  show ?thesis
    using 2 by (cases "moveRight (columns b)") (simp add: moveDown_def 1)
qed

lemma wf_board_columns: "wf_board b \<Longrightarrow> wf_board (columns b)"
  by (simp add: wf_board_transposed columns_def)

lemma columns_columns: "wf_board b \<Longrightarrow> columns (columns b) = b"
  unfolding columns_def by (rule transposed_involutive)




subsection \<open>Spawning\<close>

lemma set_emptyCells:
  "(x, y) \<in> set (emptyCells b) \<longleftrightarrow> x < length b \<and> y < length (b ! x) \<and> b ! x ! y = 0"
  by (auto simp: emptyCells_def)

lemma addRandomTile_full: "emptyCells b = [] \<Longrightarrow> addRandomTile rnd p b = Inr (b, p)"
  by (simp add: addRandomTile_def)

lemma addRandomTile_spawn:
  assumes ne: "emptyCells b \<noteq> []" and lo: "0 \<le> rnd p" and hi: "rnd p < 1"
  shows "\<exists>x y t. (x, y) \<in> set (emptyCells b) \<and> (t = 2 \<or> t = 4)
           \<and> addRandomTile rnd p b = Inr (b[x := (b ! x)[y := t]], p + 2)"
proof -
  define n where "n = length (emptyCells b)"
  define k where "k = \<lfloor>rnd p * real n\<rfloor>"
  have n: "0 < n" using ne by (simp add: n_def)
  have k0: "0 \<le> k" using lo by (simp add: k_def)
  have "rnd p * real n < real n" using hi n by simp
  then have kn: "k < int n" by (simp add: k_def floor_less_iff)
  obtain x y where xy: "emptyCells b ! nat k = (x, y)" by (cases "emptyCells b ! nat k")
  have "nat k < length (emptyCells b)" using k0 kn by (simp add: n_def)
  then have mem: "(x, y) \<in> set (emptyCells b)" using xy by (metis nth_mem)
  have "addRandomTile rnd p b
        = Inr (b[x := (b ! x)[y := (if rnd (p + 1) < 9 / 10 then 2 else 4)]], p + 2)"
    using n k0 kn xy unfolding addRandomTile_def Let_def n_def [symmetric] k_def [symmetric]
    by simp
  with mem show ?thesis by (cases "rnd (p + 1) < 9 / 10") auto
qed



lemma wf_board_update:
  "wf_board b \<Longrightarrow> wf_board (b[x := (b ! x)[y := t]])"
  by (cases "x < length b") (auto simp: wf_board_def list_all_length nth_list_update)

lemma emptyCells_Nil_iff: "emptyCells b = [] \<longleftrightarrow> 0 \<notin> set (concat b)"
proof -
  have "emptyCells b = [] \<longleftrightarrow> (\<forall>x y. (x, y) \<notin> set (emptyCells b))"
    by (cases "emptyCells b") auto
  also have "\<dots> \<longleftrightarrow> \<not> (\<exists>x y. x < length b \<and> y < length (b ! x) \<and> b ! x ! y = 0)"
    by (simp only: set_emptyCells) blast
  also have "(\<exists>x y. x < length b \<and> y < length (b ! x) \<and> b ! x ! y = 0)
             \<longleftrightarrow> 0 \<in> set (concat b)"
  proof
    assume "\<exists>x y. x < length b \<and> y < length (b ! x) \<and> b ! x ! y = 0"
    then obtain x y where "x < length b" "y < length (b ! x)" "b ! x ! y = 0" by blast
    then have "b ! x \<in> set b" "0 \<in> set (b ! x)" by (auto simp: in_set_conv_nth)
    then show "0 \<in> set (concat b)" by auto
  next
    assume "0 \<in> set (concat b)"
    then obtain r where "r \<in> set b" "0 \<in> set r" by auto
    then obtain x y where "x < length b" "b ! x = r" "y < length r" "r ! y = 0"
      by (metis in_set_conv_nth)
    then show "\<exists>x y. x < length b \<and> y < length (b ! x) \<and> b ! x ! y = 0" by blast
  qed
  finally show ?thesis .
qed

subsection \<open>C3: moves preserve the total, a spawn adds the spawned tile\<close>



subsection \<open>C8: spawning on a full board and on a board with one empty cell\<close>

text \<open>
  Claim C8 (spawn correctness). On a board with no empty cell \<open>addRandomTile\<close> returns
  the board as it is, normally and without drawing. On a board whose only empty cell is
  \<open>(x, y)\<close>, whatever \<open>Math.random()\<close> returns within \<open>[0, 1)\<close>, it returns the board with
  that cell set to 2 or 4 and every other cell as before, and the result has no empty
  cell.
\<close>

theorem spawn_correctness:
  "(0 \<notin> set (concat b) \<longrightarrow> addRandomTile rnd p b = Inr (b, p))
   \<and> (x < length b \<and> y < length (b ! x) \<and> b ! x ! y = 0
        \<and> (\<forall>i < length b. \<forall>j < length (b ! i). b ! i ! j = 0 \<longrightarrow> i = x \<and> j = y)
        \<and> 0 \<le> rnd p \<and> rnd p < 1 \<longrightarrow>
        (\<exists>t. (t = 2 \<or> t = 4)
           \<and> addRandomTile rnd p b = Inr (b[x := (b ! x)[y := t]], p + 2)
           \<and> 0 \<notin> set (concat (b[x := (b ! x)[y := t]]))))"
proof (intro conjI impI)
  assume "0 \<notin> set (concat b)"
  then show "addRandomTile rnd p b = Inr (b, p)"
    by (simp add: emptyCells_Nil_iff addRandomTile_full)
next
  assume a: "x < length b \<and> y < length (b ! x) \<and> b ! x ! y = 0
        \<and> (\<forall>i < length b. \<forall>j < length (b ! i). b ! i ! j = 0 \<longrightarrow> i = x \<and> j = y)
        \<and> 0 \<le> rnd p \<and> rnd p < 1"
  then have mem: "(x, y) \<in> set (emptyCells b)" by (simp add: set_emptyCells)
  then have "emptyCells b \<noteq> []" by auto
  with a obtain x' y' t where xy: "(x', y') \<in> set (emptyCells b)" and t: "t = 2 \<or> t = 4"
    and r: "addRandomTile rnd p b = Inr (b[x' := (b ! x')[y' := t]], p + 2)"
    using addRandomTile_spawn [of b rnd p] by blast
  from xy a have same: "x' = x" "y' = y" by (auto simp: set_emptyCells)
  have uniq: "\<And>i j. i < length b \<Longrightarrow> j < length (b ! i) \<Longrightarrow> b ! i ! j = 0 \<Longrightarrow> i = x \<and> j = y"
    using a by blast
  have xb: "x < length b" and yb: "y < length (b ! x)" using a by simp_all
  have "set (emptyCells (b[x := (b ! x)[y := t]])) = {}"
  proof -
    have "\<not> (i < length b \<and> j < length (b[x := (b ! x)[y := t]] ! i)
              \<and> b[x := (b ! x)[y := t]] ! i ! j = 0)" for i j
    proof (cases "i = x")
      case True
      show ?thesis
      proof (cases "j = y")
        case True
        with \<open>i = x\<close> xb yb t show ?thesis by auto
      next
        case False
        with \<open>i = x\<close> xb uniq [of x j] show ?thesis by auto
      qed
    next
      case False
      with uniq [of i j] show ?thesis by auto
    qed
    then have "(i, j) \<notin> set (emptyCells (b[x := (b ! x)[y := t]]))" for i j
      by (simp add: set_emptyCells)
    then show ?thesis by (cases "emptyCells (b[x := (b ! x)[y := t]])") auto
  qed
  then have "0 \<notin> set (concat (b[x := (b ! x)[y := t]]))"
    using emptyCells_Nil_iff [of "b[x := (b ! x)[y := t]]"] by simp
  with r t same show "\<exists>t. (t = 2 \<or> t = 4)
           \<and> addRandomTile rnd p b = Inr (b[x := (b ! x)[y := t]], p + 2)
           \<and> 0 \<notin> set (concat (b[x := (b ! x)[y := t]]))" by blast
qed

theorem spawn_correctness_witness:
  "(0::int) \<notin> set (concat [[2, 4, 2, 4], [4, 2, 4, 2], [2, 4, 2, 4], [4, 2, 4, 2]])
   \<and> addRandomTile (\<lambda>n. 3 / 4) 0 [[2, 4, 2, 4], [4, 2, 4, 2], [2, 4, 2, 4], [4, 2, 4, 2]]
       = Inr ([[2, 4, 2, 4], [4, 2, 4, 2], [2, 4, 2, 4], [4, 2, 4, 2]], 0)
   \<and> (\<exists>t. (t = 2 \<or> t = 4)
        \<and> addRandomTile (\<lambda>n. 3 / 4) 0 [[2, 4, 2, 4], [4, 2, 4, 2], [2, 4, 0, 4], [4, 2, 4, 2]]
            = Inr ([[2, 4, 2, 4], [4, 2, 4, 2], [2, 4, t, 4], [4, 2, 4, 2]], 2))"
proof -
  let ?F = "[[2, 4, 2, 4], [4, 2, 4, 2], [2, 4, 2, 4], [4, 2, 4, 2::int]]"
  let ?B = "[[2, 4, 2, 4], [4, 2, 4, 2], [2, 4, 0, 4], [4, 2, 4, 2::int]]"
  have f: "(0::int) \<notin> set (concat ?F)" by simp
  have u: "\<forall>i < length ?B. \<forall>j < length (?B ! i). ?B ! i ! j = 0 \<longrightarrow> i = 2 \<and> j = 2"
    by (simp add: All_less_Suc eval_nat_numeral)
  have h: "2 < length ?B \<and> 2 < length (?B ! 2) \<and> ?B ! 2 ! 2 = 0
           \<and> (0::real) \<le> (\<lambda>n. 3 / 4) (0::nat) \<and> (\<lambda>n. 3 / 4) (0::nat) < (1::real)"
    by simp
  show ?thesis
    using spawn_correctness [of ?F "\<lambda>n. 3 / 4" 0 2 2] f
      spawn_correctness [of ?B "\<lambda>n. 3 / 4" 0 2 2] u h
    by (simp add: numeral_2_eq_2 All_less_Suc eval_nat_numeral) blast
qed

subsection \<open>C4: \<open>isGameOver\<close>\<close>

lemma cellAt_wf:
  "wf_board b \<Longrightarrow> i < 4 \<Longrightarrow> j < 4 \<Longrightarrow> cellAt b i j = Inr (Some (b ! i ! j))"
  by (simp add: cellAt_def wf_board_def GRID_SIZE_def list_all_length)

lemma anyEmpty_wf:
  "wf_board b \<Longrightarrow> \<forall>(i, j) \<in> set ps. i < 4 \<and> j < 4 \<Longrightarrow>
   anyEmpty b ps = Inr (\<exists>(i, j) \<in> set ps. b ! i ! j = 0)"
  by (induction ps) (auto simp: cellAt_wf)

lemma anyMergeable_wf:
  "wf_board b \<Longrightarrow> \<forall>(i, j) \<in> set ps. i < 4 \<and> j < 4 \<Longrightarrow>
   anyMergeable b ps =
     Inr (\<exists>(i, j) \<in> set ps. (j < 3 \<and> b ! i ! j = b ! i ! (j + 1))
                          \<or> (i < 3 \<and> b ! i ! j = b ! (i + 1) ! j))"
proof (induction ps)
  case Nil
  then show ?case by simp
next
  case (Cons ij ps)
  obtain i j where ij: "ij = (i, j)" by (cases ij)
  with Cons.prems have lt: "i < 4" "j < 4" by auto
  have h: "sameCell b i j i (Suc j) = Inr (b ! i ! j = b ! i ! Suc j)" if "j < 3"
    using that lt Cons.prems(1) by (simp add: sameCell_def cellAt_wf)
  have v: "sameCell b i j (Suc i) j = Inr (b ! i ! j = b ! Suc i ! j)" if "i < 3"
    using that lt Cons.prems(1) by (simp add: sameCell_def cellAt_wf)
  have IH: "anyMergeable b ps =
     Inr (\<exists>(i, j) \<in> set ps. (j < 3 \<and> b ! i ! j = b ! i ! (j + 1))
                          \<or> (i < 3 \<and> b ! i ! j = b ! (i + 1) ! j))"
    using Cons by simp
  have h': "sameCell b i j i (j + 1) = Inr (b ! i ! j = b ! i ! Suc j)" if "j < 3"
    using h that by simp
  have v': "sameCell b i j (i + 1) j = Inr (b ! i ! j = b ! Suc i ! j)" if "i < 3"
    using v that by simp
  show ?case
    unfolding ij
    by (cases "j < 3"; cases "i < 3")
      (auto simp: IH h v h' v' GRID_SIZE_def split: bool.splits)
qed

lemma set_gridIndices: "set gridIndices = {(i, j). i < 4 \<and> j < 4}"
  by (auto simp: gridIndices_def GRID_SIZE_def)

lemma isGameOver_wf:
  assumes "wf_board b"
  shows "isGameOver b =
     Inr ((\<forall>i<4. \<forall>j<4. b ! i ! j \<noteq> 0)
          \<and> (\<forall>i<4. \<forall>j<4. \<not> (j < 3 \<and> b ! i ! j = b ! i ! (j + 1))
                           \<and> \<not> (i < 3 \<and> b ! i ! j = b ! (i + 1) ! j)))"
proof -
  have g: "\<forall>(i, j) \<in> set gridIndices. i < 4 \<and> j < 4"
    by (simp add: set_gridIndices)
  show ?thesis
    unfolding isGameOver_def anyEmpty_wf [OF assms g] anyMergeable_wf [OF assms g]
    by (auto simp: set_gridIndices split: bool.splits)
qed

lemma zero_in_wf_board:
  assumes "wf_board b"
  shows "0 \<in> set (concat b) \<longleftrightarrow> (\<exists>i<4. \<exists>j<4. b ! i ! j = 0)"
proof -
  have "0 \<in> set (concat b) \<longleftrightarrow> (\<exists>x y. (x, y) \<in> set (emptyCells b))"
    using emptyCells_Nil_iff [of b] by (cases "emptyCells b") auto
  also have "\<dots> \<longleftrightarrow> (\<exists>i<4. \<exists>j<4. b ! i ! j = 0)"
  proof -
    have "(x, y) \<in> set (emptyCells b) \<longleftrightarrow> x < 4 \<and> y < 4 \<and> b ! x ! y = 0" for x y
      using assms
      by (cases "x < 4") (auto simp: set_emptyCells wf_board_def GRID_SIZE_def list_all_length)
    then show ?thesis by blast
  qed
  finally show ?thesis .
qed

text \<open>
  Claim C4. On a 4x4 board \<open>isGameOver\<close> returns \<open>true\<close> exactly when no cell is \<open>0\<close> and no
  two horizontally or vertically adjacent cells hold equal non-zero values; so it returns
  \<open>false\<close> on every board with an empty cell. Diagonal neighbours play no part: the
  checkerboard of 2s and 4s, whose diagonal neighbours are all equal, is terminal.
\<close>

theorem isGameOver_characterisation:
  "(wf_board b \<longrightarrow> isGameOver b = Inr (0 \<notin> set (concat b) \<and> \<not> adjacentEqual b))
   \<and> (wf_board b \<and> 0 \<in> set (concat b) \<longrightarrow> isGameOver b = Inr False)
   \<and> isGameOver [[2, 4, 2, 4], [4, 2, 4, 2], [2, 4, 2, 4], [4, 2, 4, 2]] = Inr True"
proof (intro conjI impI)
  assume w: "wf_board b"
  have lt34: "\<And>n::nat. n < 3 \<Longrightarrow> n < 4" by simp
  have "((\<forall>i<4. \<forall>j<4. b ! i ! j \<noteq> 0)
          \<and> (\<forall>i<4. \<forall>j<4. \<not> (j < 3 \<and> b ! i ! j = b ! i ! (j + 1))
                           \<and> \<not> (i < 3 \<and> b ! i ! j = b ! (i + 1) ! j)))
        \<longleftrightarrow> (0 \<notin> set (concat b) \<and> \<not> adjacentEqual b)"
    unfolding zero_in_wf_board [OF w] adjacentEqual_def
    using lt34 by blast
  then show "isGameOver b = Inr (0 \<notin> set (concat b) \<and> \<not> adjacentEqual b)"
    by (simp add: isGameOver_wf [OF w])
next
  assume a: "wf_board b \<and> 0 \<in> set (concat b)"
  then have "\<exists>i<4. \<exists>j<4. b ! i ! j = 0"
    using zero_in_wf_board [of b] by blast
  then show "isGameOver b = Inr False"
    using a isGameOver_wf [of b] by auto
next
  show "isGameOver [[2, 4, 2, 4], [4, 2, 4, 2], [2, 4, 2, 4], [4, 2, 4, 2]] = Inr True"
    by (simp add: isGameOver_def gridIndices_def GRID_SIZE_def cellAt_def sameCell_def
        eval_nat_numeral)
qed

theorem isGameOver_characterisation_witness:
  "wf_board [[2, 4, 2, 4], [4, 2, 4, 2], [2, 4, 0, 4], [4, 2, 4, 2]]
   \<and> (0::int) \<in> set (concat [[2, 4, 2, 4], [4, 2, 4, 2], [2, 4, 0, 4], [4, 2, 4, 2]])
   \<and> isGameOver [[2, 4, 2, 4], [4, 2, 4, 2], [2, 4, 0, 4], [4, 2, 4, 2]] = Inr False
   \<and> wf_board [[2, 4, 2, 4], [4, 2, 4, 2], [2, 4, 2, 4], [4, 2, 4, 2]]
   \<and> (0::int) \<notin> set (concat [[2, 4, 2, 4], [4, 2, 4, 2], [2, 4, 2, 4], [4, 2, 4, 2]])
   \<and> \<not> adjacentEqual [[2, 4, 2, 4], [4, 2, 4, 2], [2, 4, 2, 4], [4, 2, 4, 2]]"
proof -
  let ?B = "[[2, 4, 2, 4], [4, 2, 4, 2], [2, 4, 0, 4], [4, 2, 4, 2::int]]"
  let ?C = "[[2, 4, 2, 4], [4, 2, 4, 2], [2, 4, 2, 4], [4, 2, 4, 2::int]]"
  have wb: "wf_board ?B" and wc: "wf_board ?C" by (simp_all add: wf_board_def GRID_SIZE_def)
  have z: "(0::int) \<in> set (concat ?B)" by simp
  from isGameOver_characterisation [of ?B] wb z
  have 1: "isGameOver ?B = Inr False" by blast
  from isGameOver_characterisation [of ?C] wc
  have 2: "0 \<notin> set (concat ?C) \<and> \<not> adjacentEqual ?C" by (metis sum.inject(2))
  from wb wc z 1 2 show ?thesis by blast
qed

subsection \<open>A move that changes nothing scores nothing\<close>

lemma compact_padTo: "compact (padTo n r) = compact r"
  by (simp add: compact_def padTo_def)

lemma compact_compact: "compact (compact r) = compact r"
  by (simp add: compact_def)

lemma zero_notin_compact: "0 \<notin> set (compact r)"
  by (simp add: compact_def)

lemma length_compact_Cons: "length (compact (x # r)) \<le> Suc (length (compact r))"
  by (simp add: compact_def)

lemma length_compact_mergePass: "length (compact (fst (mergePass r))) \<le> length r"
  using length_compact_le [of "fst (mergePass r)"] by (simp add: length_mergePass)

lemma mergePass_shrinks:
  "0 \<notin> set r \<Longrightarrow> snd (mergePass r) \<noteq> 0 \<Longrightarrow> length (compact (fst (mergePass r))) < length r"
proof (induction r rule: mergePass.induct)
  case (1 x y rest)
  show ?case
  proof (cases "x = y")
    case True
    have "length (compact (fst (mergePass (x # y # rest))))
          = length (compact ((x + y) # 0 # fst (mergePass rest)))"
      using True by (simp split: prod.splits)
    also have "\<dots> \<le> Suc (length (compact (fst (mergePass rest))))"
      by (simp add: compact_def)
    also have "\<dots> \<le> Suc (length rest)"
      using length_compact_mergePass [of rest] by simp
    finally show ?thesis by simp
  next
    case False
    with "1.prems" have s: "snd (mergePass (y # rest)) \<noteq> 0"
      by (simp split: prod.splits)
    from "1.prems" have "0 \<notin> set (y # rest)" by simp
    with "1.IH"(2) [OF False] s
    have "length (compact (fst (mergePass (y # rest)))) < length (y # rest)" by blast
    moreover have "fst (mergePass (x # y # rest)) = x # fst (mergePass (y # rest))"
      using False by (simp split: prod.splits)
    ultimately show ?thesis
      using length_compact_Cons [of x "fst (mergePass (y # rest))"] by simp
  qed
qed simp_all

lemma moveRowLeft_noop_score:
  assumes "fst (moveRowLeft r) = r"
  shows "snd (moveRowLeft r) = 0"
proof (rule ccontr)
  assume "snd (moveRowLeft r) \<noteq> 0"
  then have s: "snd (mergePass (compact r)) \<noteq> 0"
    by (simp add: moveRowLeft_closed)
  have "compact r = compact (fst (moveRowLeft r))" using assms by simp
  also have "\<dots> = compact (fst (mergePass (compact r)))"
    by (simp add: moveRowLeft_closed compact_padTo compact_compact)
  finally have "length (compact (fst (mergePass (compact r)))) = length (compact r)"
    by simp
  with mergePass_shrinks [OF zero_notin_compact s] show False by simp
qed

lemma map_fixed: "map f xs = xs \<Longrightarrow> x \<in> set xs \<Longrightarrow> f x = x"
  by (induction xs) auto

lemma sum_list_all_zero: "(\<And>x. x \<in> set xs \<Longrightarrow> f x = (0::int)) \<Longrightarrow> sum_list (map f xs) = 0"
  by (induction xs) simp_all

lemma moveLeft_noop_score:
  assumes "fst (moveLeft b) = b"
  shows "snd (moveLeft b) = 0"
proof -
  have "snd (moveRowLeft r) = 0" if "r \<in> set b" for r
    using assms that map_fixed [of "\<lambda>r. fst (moveRowLeft r)" b r]
    by (simp add: moveLeft_closed moveRowLeft_noop_score)
  then have "sum_list (map (\<lambda>r. snd (moveRowLeft r)) b) = 0" by (rule sum_list_all_zero)
  then show ?thesis by (simp add: moveLeft_closed)
qed

lemma moveRight_noop_score:
  assumes "fst (moveRight b) = b"
  shows "snd (moveRight b) = 0"
proof -
  have "snd (moveRowLeft (rev r)) = 0" if "r \<in> set b" for r
  proof -
    have "rev (fst (moveRowLeft (rev r))) = r"
      using assms that map_fixed [of "\<lambda>r. rev (fst (moveRowLeft (rev r)))" b r]
      by (simp add: moveRight_closed)
    then have "fst (moveRowLeft (rev r)) = rev r" by (metis rev_rev_ident)
    then show ?thesis by (rule moveRowLeft_noop_score)
  qed
  then have "sum_list (map (\<lambda>r. snd (moveRowLeft (rev r))) b) = 0"
    by (rule sum_list_all_zero)
  then show ?thesis by (simp add: moveRight_closed)
qed

lemma moveUp_noop_score:
  assumes w: "wf_board b" and m: "moveUp b = Inr (b, sc)"
  shows "sc = 0"
proof -
  from m have c: "columns (fst (moveLeft (columns b))) = b" and s: "sc = snd (moveLeft (columns b))"
    by (simp_all add: moveUp_wf [OF w])
  have "wf_board (fst (moveLeft (columns b)))"
    using w by (simp add: wf_board_moveLeft wf_board_columns)
  then have "columns (columns (fst (moveLeft (columns b)))) = fst (moveLeft (columns b))"
    by (rule columns_columns)
  with c have "fst (moveLeft (columns b)) = columns b" by simp
  then show ?thesis unfolding s by (rule moveLeft_noop_score)
qed

lemma moveDown_noop_score:
  assumes w: "wf_board b" and m: "moveDown b = Inr (b, sc)"
  shows "sc = 0"
proof -
  from m have c: "columns (fst (moveRight (columns b))) = b" and s: "sc = snd (moveRight (columns b))"
    by (simp_all add: moveDown_wf [OF w])
  have "wf_board (fst (moveRight (columns b)))"
    using w by (simp add: wf_board_moveRight wf_board_columns)
  then have "columns (columns (fst (moveRight (columns b)))) = fst (moveRight (columns b))"
    by (rule columns_columns)
  with c have "fst (moveRight (columns b)) = columns b" by simp
  then show ?thesis unfolding s by (rule moveRight_noop_score)
qed

subsection \<open>The switch on game boards\<close>

lemma moveSwitch_cases:
  assumes "moveSwitch d b = Some r"
  obtains "d = ''up''" "r = moveUp b" | "d = ''down''" "r = moveDown b"
    | "d = ''left''" "r = Inr (moveLeft b)" | "d = ''right''" "r = Inr (moveRight b)"
  using assms unfolding moveSwitch_def by (auto split: if_splits)

lemma moveSwitch_wf:
  assumes w: "wf_board b" and m: "moveSwitch d b = Some r"
  shows "\<exists>nb sc. r = Inr (nb, sc) \<and> wf_board nb"
  using m
proof (cases rule: moveSwitch_cases)
  case 1
  then show ?thesis
    using w by (simp add: moveUp_wf wf_board_columns wf_board_moveLeft)
next
  case 2
  then show ?thesis
    using w by (simp add: moveDown_wf wf_board_columns wf_board_moveRight)
next
  case 3
  then show ?thesis
    using wf_board_moveLeft [OF w] by (cases "moveLeft b") simp
next
  case 4
  then show ?thesis
    using wf_board_moveRight [OF w] by (cases "moveRight b") simp
qed

lemma moveSwitch_noop_score:
  assumes w: "wf_board b" and m: "moveSwitch d b = Some (Inr (b, sc))"
  shows "sc = 0"
  using m
proof (cases rule: moveSwitch_cases)
  case 1
  then show ?thesis using moveUp_noop_score [OF w] by simp
next
  case 2
  then show ?thesis using moveDown_noop_score [OF w] by simp
next
  case 3
  then show ?thesis using moveLeft_noop_score [of b] by (cases "moveLeft b") simp
next
  case 4
  then show ?thesis using moveRight_noop_score [of b] by (cases "moveRight b") simp
qed

subsection \<open>\<open>arraysEqual\<close>\<close>

lemma arraysEqualLoop_in_range:
  "\<forall>(i, j) \<in> set ps. i < length b \<and> j < length (b ! i) \<Longrightarrow>
   arraysEqualLoop a b ps = Inr (\<forall>(i, j) \<in> set ps. a ! i ! j = b ! i ! j)"
  by (induction ps) (auto simp: cellAt_def)

lemma arraysEqual_same_shape:
  assumes l: "length a = length b" and r: "\<forall>i < length a. length (a ! i) = length (b ! i)"
  shows "arraysEqual a b = Inr (a = b)"
proof -
  let ?ps = "[(i, j). i \<leftarrow> [0..<length a], j \<leftarrow> [0..<length (a ! i)]]"
  have rng: "\<forall>(i, j) \<in> set ?ps. i < length b \<and> j < length (b ! i)"
    using l r by auto
  have "(\<forall>(i, j) \<in> set ?ps. a ! i ! j = b ! i ! j) \<longleftrightarrow> a = b"
  proof
    assume h: "\<forall>(i, j) \<in> set ?ps. a ! i ! j = b ! i ! j"
    show "a = b"
    proof (rule nth_equalityI [OF l])
      fix i assume i: "i < length a"
      show "a ! i = b ! i"
      proof (rule nth_equalityI)
        show "length (a ! i) = length (b ! i)" using r i by simp
      next
        fix j assume "j < length (a ! i)"
        with i h show "a ! i ! j = b ! i ! j" by auto
      qed
    qed
  qed simp
  then show ?thesis
    unfolding arraysEqual_def arraysEqualLoop_in_range [OF rng] by simp
qed

lemma arraysEqual_wf: "wf_board a \<Longrightarrow> wf_board b \<Longrightarrow> arraysEqual a b = Inr (a = b)"
  by (rule arraysEqual_same_shape) (simp_all add: wf_board_def list_all_length)

lemma arraysEqual_refl: "arraysEqual a a = Inr True"
  using arraysEqual_same_shape [of a a] by simp

subsection \<open>C10: points are never earned without a change of the board\<close>

text \<open>
  Claim C10. For every 4x4 board and every direction of the switch, the move returns
  normally; if its \<open>totalScore\<close> is positive the returned board differs from the input in
  some cell, and if the returned board equals the input the score is \<open>0\<close>. On these boards
  \<open>arraysEqual\<close> decides exactly that equality, so the \<open>!arraysEqual\<close> guard of \<open>handleMove\<close>
  never drops a positive score.
\<close>

theorem score_implies_change:
  assumes "wf_board b" and "moveSwitch d b = Some r"
  shows "\<exists>nb sc. r = Inr (nb, sc) \<and> (0 < sc \<longrightarrow> nb \<noteq> b) \<and> (nb = b \<longrightarrow> sc = 0)
           \<and> arraysEqual b nb = Inr (nb = b)"
proof -
  from moveSwitch_wf [OF assms] obtain nb sc where r: "r = Inr (nb, sc)" and w: "wf_board nb"
    by blast
  have "sc = 0" if "nb = b"
    using moveSwitch_noop_score [OF assms(1), of d sc] assms(2) r that by simp
  moreover have "arraysEqual b nb = Inr (nb = b)"
    using arraysEqual_wf [OF assms(1) w] by auto
  ultimately show ?thesis using r by auto
qed

theorem score_implies_change_witness:
  "wf_board [[2, 2, 0, 0], [0, 0, 0, 0], [0, 4, 0, 0], [0, 0, 0, 0]]
   \<and> moveSwitch ''left'' [[2, 2, 0, 0], [0, 0, 0, 0], [0, 4, 0, 0], [0, 0, 0, 0]]
       = Some (Inr ([[4, 0, 0, 0], [0, 0, 0, 0], [4, 0, 0, 0], [0, 0, 0, 0]], 4))
   \<and> arraysEqual [[2, 2, 0, 0], [0, 0, 0, 0], [0, 4, 0, 0], [0, 0, 0, 0]]
         [[4, 0, 0, 0], [0, 0, 0, 0], [4, 0, 0, 0], [0, 0, 0, 0]] = Inr False"
proof -
  let ?B = "[[2, 2, 0, 0], [0, 0, 0, 0], [0, 4, 0, 0], [0, 0, 0, 0::int]]"
  let ?N = "[[4, 0, 0, 0], [0, 0, 0, 0], [4, 0, 0, 0], [0, 0, 0, 0::int]]"
  have w: "wf_board ?B" by (simp add: wf_board_def GRID_SIZE_def)
  have m: "moveSwitch ''left'' ?B = Some (Inr (?N, 4))"
    by (simp add: moveSwitch_def moveLeft_closed moveRowLeft_closed compact_def padTo_def
        eval_nat_numeral)
  from score_implies_change [OF w m] have "arraysEqual ?B ?N = Inr (?N = ?B)" by simp
  then have "arraysEqual ?B ?N = Inr False" by simp
  with w m show ?thesis by blast
qed

subsection \<open>The controller on game boards\<close>

lemma addRandomTile_wf:
  assumes "wf_board b" "0 \<le> rnd p" "rnd p < 1"
  shows "\<exists>b' p'. addRandomTile rnd p b = Inr (b', p') \<and> wf_board b' \<and> (p' = p \<or> p' = p + 2)"
proof (cases "emptyCells b = []")
  case True
  with assms(1) show ?thesis by (simp add: addRandomTile_full)
next
  case False
  from addRandomTile_spawn [of b rnd p] False assms(2,3) obtain x y t
    where "addRandomTile rnd p b = Inr (b[x := (b ! x)[y := t]], p + 2)" by blast
  with wf_board_update [OF assms(1), of x y t] show ?thesis by simp
qed

lemma isGameOver_total: "wf_board b \<Longrightarrow> \<exists>t. isGameOver b = Inr t"
  by (simp add: isGameOver_wf)

lemma handleMove_noop:
  assumes "\<not> gameOver g" "moveSwitch d (board g) = Some (Inr (nb, sc))"
    "arraysEqual (board g) nb = Inr True"
  shows "handleMove rnd d (g, p) = Inr (g, p)"
  using assms by (simp add: handleMove_def)

lemma handleMove_accepted:
  assumes g: "\<not> gameOver g" and m: "moveSwitch d (board g) = Some (Inr (nb, sc))"
    and ne: "arraysEqual (board g) nb = Inr False"
    and a: "addRandomTile rnd p nb = Inr (b', p')" and t: "isGameOver b' = Inr over"
  shows "handleMove rnd d (g, p) =
     Inr (\<lparr>board = b', score = score g + sc, bestScore = max (bestScore g) (score g + sc),
           gameOver = over, gameStarted = gameStarted g\<rparr>, p')"
  using assms by (cases over) (auto simp: handleMove_def Let_def max_def)

lemma handleMove_wf:
  assumes w: "wf_board (board g)" and d: "0 \<le> rnd p" "rnd p < 1"
  shows "\<exists>g' p'. handleMove rnd dir (g, p) = Inr (g', p') \<and> wf_board (board g')
           \<and> bestScore g \<le> bestScore g'"
proof (cases "gameOver g")
  case True
  with w show ?thesis by (simp add: handleMove_def)
next
  case False
  show ?thesis
  proof (cases "moveSwitch dir (board g)")
    case None
    with w False show ?thesis by (simp add: handleMove_def)
  next
    case (Some r)
    from moveSwitch_wf [OF w Some] obtain nb sc where r: "r = Inr (nb, sc)" and wn: "wf_board nb"
      by blast
    have m: "moveSwitch dir (board g) = Some (Inr (nb, sc))" using Some r by simp
    have eq: "arraysEqual (board g) nb = Inr (board g = nb)"
      by (rule arraysEqual_wf [OF w wn])
    show ?thesis
    proof (cases "board g = nb")
      case True
      with eq have "arraysEqual (board g) nb = Inr True" by simp
      from handleMove_noop [OF False m this] w show ?thesis by simp
    next
      case ne: False
      with eq have e: "arraysEqual (board g) nb = Inr False" by simp
      from addRandomTile_wf [of nb rnd p] wn d obtain b' p'
        where a: "addRandomTile rnd p nb = Inr (b', p')" and wb: "wf_board b'" by blast
      from isGameOver_total [OF wb] obtain over where t: "isGameOver b' = Inr over" by blast
      from handleMove_accepted [OF False m e a t] wb show ?thesis by simp
    qed
  qed
qed

lemma wf_board_zero: "wf_board (replicate GRID_SIZE (replicate GRID_SIZE 0))"
  by (simp add: wf_board_def GRID_SIZE_def list_all_iff)

lemma getInitialBoard_wf:
  assumes "0 \<le> rnd p" "rnd p < 1" "0 \<le> rnd (p + 2)" "rnd (p + 2) < 1"
  shows "\<exists>b. getInitialBoard rnd p = Inr (b, p + 4) \<and> wf_board b"
proof -
  let ?z = "replicate GRID_SIZE (replicate GRID_SIZE (0::int))"
  have 0: "(0, 0) \<in> set (emptyCells ?z)" by (simp add: set_emptyCells GRID_SIZE_def)
  then have ne: "emptyCells ?z \<noteq> []" by auto
  from addRandomTile_spawn [of ?z rnd p] ne assms(1,2) obtain x y t
    where xy: "(x, y) \<in> set (emptyCells ?z)" and tt: "t = 2 \<or> t = (4::int)"
      and a1: "addRandomTile rnd p ?z = Inr (?z[x := (?z ! x)[y := t]], p + 2)" by blast
  let ?b1 = "?z[x := (?z ! x)[y := t]]"
  have w1: "wf_board ?b1" by (rule wf_board_update [OF wf_board_zero])
  define x' where "x' = (if x = 0 then 1 else (0::nat))"
  have "x' \<noteq> x" "x' < 4" by (simp_all add: x'_def)
  then have "(x', 0) \<in> set (emptyCells ?b1)"
    by (simp add: set_emptyCells GRID_SIZE_def)
  then have ne1: "emptyCells ?b1 \<noteq> []" by auto
  from addRandomTile_spawn [of ?b1 rnd "p + 2"] ne1 assms(3,4) obtain x2 y2 t2
    where a2: "addRandomTile rnd (p + 2) ?b1 = Inr (?b1[x2 := (?b1 ! x2)[y2 := t2]], p + 2 + 2)"
    by blast
  have "wf_board (?b1[x2 := (?b1 ! x2)[y2 := t2]])" by (rule wf_board_update [OF w1])
  with a1 a2 show ?thesis by (simp add: getInitialBoard_def)
qed

lemma newGame_wf:
  assumes "0 \<le> rnd p" "rnd p < 1" "0 \<le> rnd (p + 2)" "rnd (p + 2) < 1"
  shows "\<exists>g' p'. newGame rnd (g, p) = Inr (g', p') \<and> wf_board (board g') \<and> score g' = 0
           \<and> bestScore g' = bestScore g \<and> gameOver g' = False"
  using getInitialBoard_wf [of rnd p] assms by (auto simp: newGame_def)

lemma initialGame_wf:
  assumes "0 \<le> rnd p" "rnd p < 1" "0 \<le> rnd (p + 2)" "rnd (p + 2) < 1"
  shows "\<exists>g' p'. initialGame rnd p = Inr (g', p') \<and> wf_board (board g') \<and> score g' = 0
           \<and> bestScore g' = 0 \<and> gameOver g' = False"
  using getInitialBoard_wf [of rnd p] assms by (auto simp: initialGame_def)

lemma step_wf:
  assumes "wf_board (board g)" "event_ok e"
  shows "\<exists>g'. step e g = Inr g' \<and> wf_board (board g') \<and> bestScore g \<le> bestScore g'"
proof (cases e)
  case (Move d rnd)
  with assms handleMove_wf [of g rnd 0 d] show ?thesis by auto
next
  case (Reset rnd)
  with assms have "0 \<le> rnd 0" "rnd 0 < 1" "0 \<le> rnd (0 + 2)" "rnd (0 + 2) < 1"
    by (simp_all add: numeral_2_eq_2)
  from newGame_wf [of rnd 0 g, OF this] obtain g' p' where
    "newGame rnd (g, 0) = Inr (g', p')" "wf_board (board g')" "bestScore g' = bestScore g"
    by blast
  with Reset show ?thesis by simp
qed

lemma run_wf:
  assumes "wf_board (board g)" "\<forall>e \<in> set es. event_ok e"
  shows "\<exists>g'. run es g = Inr g' \<and> wf_board (board g') \<and> bestScore g \<le> bestScore g'"
  using assms
proof (induction es arbitrary: g)
  case Nil
  then show ?case by simp
next
  case (Cons e es)
  from step_wf [of g e] Cons.prems obtain g1
    where s: "step e g = Inr g1" and w1: "wf_board (board g1)" and b1: "bestScore g \<le> bestScore g1"
    by auto
  from Cons.IH [OF w1] Cons.prems obtain g2
    where "run es g1 = Inr g2" "wf_board (board g2)" "bestScore g1 \<le> bestScore g2" by auto
  with s b1 show ?case by auto
qed

lemma run_append:
  "run (es1 @ es2) g = (case run es1 g of Inl x \<Rightarrow> Inl x | Inr g' \<Rightarrow> run es2 g')"
  by (induction es1 arbitrary: g) (auto split: sum.splits)

subsection \<open>C5: a move that changes nothing changes no state\<close>

text \<open>
  Claim C5 (no-op isolation). In a state that is not game over, when the move chosen by
  the direction returns a board equal to the current one, or one that \<open>arraysEqual\<close> takes
  for equal, \<open>arraysEqual\<close> is \<open>true\<close> (so \<open>changed\<close> is false) and \<open>handleMove\<close> leaves the
  whole state as it was: board, score and best score. No tile is spawned: the board is the
  old one and no random number is drawn.
\<close>

theorem noop_isolation:
  assumes "\<not> gameOver g" and "moveSwitch d (board g) = Some (Inr (nb, sc))"
    and "nb = board g \<or> arraysEqual (board g) nb = Inr True"
  shows "arraysEqual (board g) nb = Inr True \<and> handleMove rnd d (g, p) = Inr (g, p)"
proof -
  have e: "arraysEqual (board g) nb = Inr True"
    using assms(3) by (auto simp: arraysEqual_refl)
  from handleMove_noop [OF assms(1,2) e] e show ?thesis by simp
qed

theorem noop_isolation_witness:
  "\<not> gameOver \<lparr>board = [[2, 4, 0, 0], [0, 0, 0, 0], [8, 0, 0, 0], [0, 0, 0, 0]], score = 12,
       bestScore = 20, gameOver = False, gameStarted = True\<rparr>
   \<and> moveSwitch ''left'' [[2, 4, 0, 0], [0, 0, 0, 0], [8, 0, 0, 0], [0, 0, 0, 0]]
       = Some (Inr ([[2, 4, 0, 0], [0, 0, 0, 0], [8, 0, 0, 0], [0, 0, 0, 0]], 0))
   \<and> handleMove (\<lambda>n. 1 / 2) ''left''
        (\<lparr>board = [[2, 4, 0, 0], [0, 0, 0, 0], [8, 0, 0, 0], [0, 0, 0, 0]], score = 12,
          bestScore = 20, gameOver = False, gameStarted = True\<rparr>, 0)
       = Inr (\<lparr>board = [[2, 4, 0, 0], [0, 0, 0, 0], [8, 0, 0, 0], [0, 0, 0, 0]], score = 12,
          bestScore = 20, gameOver = False, gameStarted = True\<rparr>, 0)"
proof -
  let ?B = "[[2, 4, 0, 0], [0, 0, 0, 0], [8, 0, 0, 0], [0, 0, 0, 0::int]]"
  let ?g = "\<lparr>board = ?B, score = 12, bestScore = 20, gameOver = False, gameStarted = True\<rparr>"
  have m: "moveSwitch ''left'' ?B = Some (Inr (?B, 0))"
    by (simp add: moveSwitch_def moveLeft_closed moveRowLeft_closed compact_def padTo_def
        eval_nat_numeral)
  have 1: "\<not> gameOver ?g" by simp
  have 2: "moveSwitch ''left'' (board ?g) = Some (Inr (?B, 0))" using m by simp
  have 3: "?B = board ?g \<or> arraysEqual (board ?g) ?B = Inr True" by simp
  from noop_isolation [OF 1 2 3, of "\<lambda>n. 1 / 2" 0] m show ?thesis by simp
qed

subsection \<open>C7: the best score never decreases\<close>

text \<open>
  Claim C7 (BestScore monotonicity). From a 4x4 board, and so from a fresh game, every
  sequence of moves and resets runs without an exception, and the best score after any
  prefix of it is at most the best score after the whole of it. An accepted move sets
  \<open>bestScore\<close> to the maximum of the old best score and the new score; \<open>newGame\<close> sets the
  score to \<open>0\<close> and keeps the best score.
\<close>

theorem bestScore_monotone:
  "(wf_board (board g) \<and> (\<forall>e \<in> set (es1 @ es2). event_ok e) \<longrightarrow>
      (\<exists>g1 g2. run es1 g = Inr g1 \<and> run (es1 @ es2) g = Inr g2
          \<and> bestScore g1 \<le> bestScore g2 \<and> bestScore g \<le> bestScore g1))
   \<and> (0 \<le> rnd p \<and> rnd p < 1 \<and> 0 \<le> rnd (p + 2) \<and> rnd (p + 2) < 1 \<longrightarrow>
      (\<exists>g0 p'. initialGame rnd p = Inr (g0, p') \<and> wf_board (board g0) \<and> score g0 = 0
          \<and> bestScore g0 = 0))
   \<and> (wf_board (board g) \<and> \<not> gameOver g \<and> moveSwitch d (board g) = Some (Inr (nb, sc))
        \<and> nb \<noteq> board g \<and> 0 \<le> rnd p \<and> rnd p < 1 \<longrightarrow>
      (\<exists>g' p'. handleMove rnd d (g, p) = Inr (g', p') \<and> score g' = score g + sc
          \<and> bestScore g' = max (bestScore g) (score g')))
   \<and> (0 \<le> rnd p \<and> rnd p < 1 \<and> 0 \<le> rnd (p + 2) \<and> rnd (p + 2) < 1 \<longrightarrow>
      (\<exists>g' p'. newGame rnd (g, p) = Inr (g', p') \<and> score g' = 0
          \<and> bestScore g' = bestScore g))"
proof (intro conjI impI)
  assume a: "wf_board (board g) \<and> (\<forall>e \<in> set (es1 @ es2). event_ok e)"
  then have w: "wf_board (board g)" and e1: "\<forall>e \<in> set es1. event_ok e"
    and e2: "\<forall>e \<in> set es2. event_ok e" by auto
  from run_wf [OF w e1] obtain g1
    where r1: "run es1 g = Inr g1" and w1: "wf_board (board g1)" and b1: "bestScore g \<le> bestScore g1"
    by blast
  from run_wf [OF w1 e2] obtain g2
    where r2: "run es2 g1 = Inr g2" and b2: "bestScore g1 \<le> bestScore g2" by blast
  have "run (es1 @ es2) g = Inr g2" by (simp add: run_append r1 r2)
  with r1 b1 b2 show "\<exists>g1 g2. run es1 g = Inr g1 \<and> run (es1 @ es2) g = Inr g2
          \<and> bestScore g1 \<le> bestScore g2 \<and> bestScore g \<le> bestScore g1" by blast
next
  assume "0 \<le> rnd p \<and> rnd p < 1 \<and> 0 \<le> rnd (p + 2) \<and> rnd (p + 2) < 1"
  then show "\<exists>g0 p'. initialGame rnd p = Inr (g0, p') \<and> wf_board (board g0) \<and> score g0 = 0
          \<and> bestScore g0 = 0"
    using initialGame_wf [of rnd p] by blast
next
  assume a: "wf_board (board g) \<and> \<not> gameOver g \<and> moveSwitch d (board g) = Some (Inr (nb, sc))
        \<and> nb \<noteq> board g \<and> 0 \<le> rnd p \<and> rnd p < 1"
  then have w: "wf_board (board g)" and m: "moveSwitch d (board g) = Some (Inr (nb, sc))"
    and g: "\<not> gameOver g" by simp_all
  from moveSwitch_wf [OF w m] have wn: "wf_board nb" by simp
  from arraysEqual_wf [OF w wn] a have e: "arraysEqual (board g) nb = Inr False" by auto
  from addRandomTile_wf [of nb rnd p] wn a obtain b' p'
    where s: "addRandomTile rnd p nb = Inr (b', p')" and wb: "wf_board b'" by blast
  from isGameOver_total [OF wb] obtain over where t: "isGameOver b' = Inr over" by blast
  from handleMove_accepted [OF g m e s t]
  show "\<exists>g' p'. handleMove rnd d (g, p) = Inr (g', p') \<and> score g' = score g + sc
          \<and> bestScore g' = max (bestScore g) (score g')" by simp
next
  assume "0 \<le> rnd p \<and> rnd p < 1 \<and> 0 \<le> rnd (p + 2) \<and> rnd (p + 2) < 1"
  then show "\<exists>g' p'. newGame rnd (g, p) = Inr (g', p') \<and> score g' = 0
          \<and> bestScore g' = bestScore g"
    using newGame_wf [of rnd p g] by blast
qed

theorem bestScore_monotone_witness:
  "(\<exists>g0 p'. initialGame (\<lambda>n. 1 / 2) 0 = Inr (g0, p') \<and> wf_board (board g0) \<and> bestScore g0 = 0
      \<and> (\<exists>g1 g2. run [Move ''left'' (\<lambda>n. 1 / 2), Move ''up'' (\<lambda>n. 1 / 4)] g0 = Inr g1
            \<and> run ([Move ''left'' (\<lambda>n. 1 / 2), Move ''up'' (\<lambda>n. 1 / 4)]
                    @ [Reset (\<lambda>n. 3 / 4), Move ''down'' (\<lambda>n. 0)]) g0 = Inr g2
            \<and> bestScore g1 \<le> bestScore g2))
   \<and> (\<exists>g' p'. handleMove (\<lambda>n. 1 / 2) ''left''
          (\<lparr>board = [[2, 2, 0, 0], [0, 0, 0, 0], [8, 0, 0, 0], [0, 0, 0, 0]], score = 12,
            bestScore = 14, gameOver = False, gameStarted = True\<rparr>, 0) = Inr (g', p')
        \<and> score g' = 16 \<and> bestScore g' = 16)
   \<and> (\<exists>g' p'. newGame (\<lambda>n. 1 / 2) 
          (\<lparr>board = [[2, 2, 0, 0], [0, 0, 0, 0], [8, 0, 0, 0], [0, 0, 0, 0]], score = 12,
            bestScore = 14, gameOver = False, gameStarted = True\<rparr>, 0) = Inr (g', p')
        \<and> score g' = 0 \<and> bestScore g' = 14)"
proof -
  let ?r = "\<lambda>n::nat. 1 / 2 :: real"
  let ?B = "[[2, 2, 0, 0], [0, 0, 0, 0], [8, 0, 0, 0], [0, 0, 0, 0::int]]"
  let ?N = "[[4, 0, 0, 0], [0, 0, 0, 0], [8, 0, 0, 0], [0, 0, 0, 0::int]]"
  let ?g = "\<lparr>board = ?B, score = 12, bestScore = 14, gameOver = False, gameStarted = True\<rparr>"
  let ?es1 = "[Move ''left'' (\<lambda>n. 1 / 2), Move ''up'' (\<lambda>n. 1 / 4)]"
  let ?es2 = "[Reset (\<lambda>n. 3 / 4), Move ''down'' (\<lambda>n. 0)]"
  have d: "0 \<le> ?r 0 \<and> ?r 0 < 1 \<and> 0 \<le> ?r (0 + 2) \<and> ?r (0 + 2) < 1" by simp
  have ev: "\<forall>e \<in> set (?es1 @ ?es2). event_ok e" by simp
  have m: "moveSwitch ''left'' (board ?g) = Some (Inr (?N, 4))"
    by (simp add: moveSwitch_def moveLeft_closed moveRowLeft_closed compact_def padTo_def
        eval_nat_numeral)
  have w: "wf_board (board ?g)" by (simp add: wf_board_def GRID_SIZE_def)
  have h: "wf_board (board ?g) \<and> \<not> gameOver ?g \<and> moveSwitch ''left'' (board ?g) = Some (Inr (?N, 4))
        \<and> ?N \<noteq> board ?g \<and> 0 \<le> ?r 0 \<and> ?r 0 < 1"
    using m w by simp
  from bestScore_monotone [of ?g ?es1 ?es2 ?r 0 "''left''" ?N 4] d h
  have 1: "\<exists>g0 p'. initialGame ?r 0 = Inr (g0, p') \<and> wf_board (board g0) \<and> score g0 = 0
          \<and> bestScore g0 = 0"
    and 3: "\<exists>g' p'. handleMove ?r ''left'' (?g, 0) = Inr (g', p') \<and> score g' = score ?g + 4
          \<and> bestScore g' = max (bestScore ?g) (score g')"
    and 4: "\<exists>g' p'. newGame ?r (?g, 0) = Inr (g', p') \<and> score g' = 0
          \<and> bestScore g' = bestScore ?g"
    by blast+
  from 1 obtain g0 p' where i: "initialGame ?r 0 = Inr (g0, p')" and w0: "wf_board (board g0)"
    and b0: "bestScore g0 = 0" by blast
  from bestScore_monotone [of g0 ?es1 ?es2 ?r 0 "''left''" ?N 4] w0 ev
  have 2: "\<exists>g1 g2. run ?es1 g0 = Inr g1 \<and> run (?es1 @ ?es2) g0 = Inr g2
          \<and> bestScore g1 \<le> bestScore g2" by blast
  from 3 have h3: "\<exists>g' p'. handleMove ?r ''left'' (?g, 0) = Inr (g', p') \<and> score g' = 16
          \<and> bestScore g' = 16" by auto
  from 4 have h4: "\<exists>g' p'. newGame ?r (?g, 0) = Inr (g', p') \<and> score g' = 0
          \<and> bestScore g' = 14" by simp
  from i w0 b0 2 h3 h4 show ?thesis by blast
qed

subsection \<open>C9: every reachable cell is empty or a power of two\<close>

lemma tileValue_0 [simp]: "tileValue 0"
  by (simp add: tileValue_def)

lemma tileValue_2 [simp]: "tileValue 2"
  unfolding tileValue_def by (rule disjI2, rule exI [of _ 1]) simp

lemma tileValue_4 [simp]: "tileValue 4"
  unfolding tileValue_def by (rule disjI2, rule exI [of _ 2]) simp

lemma tileValue_double: "tileValue c \<Longrightarrow> tileValue (c + c)"
proof -
  assume "tileValue c"
  then consider "c = 0" | k where "1 \<le> k" "c = 2 ^ k" by (auto simp: tileValue_def)
  then show ?thesis
  proof cases
    case 1
    then show ?thesis by simp
  next
    case 2
    then have "c + c = 2 ^ Suc k" "1 \<le> Suc k" by simp_all
    then show ?thesis unfolding tileValue_def by blast
  qed
qed

lemma tileValue_twice: "tileValue c \<Longrightarrow> tileValue (2 * c)"
  unfolding mult_2 by (rule tileValue_double)

lemma tileValue_nonneg: "tileValue c \<Longrightarrow> 0 \<le> c"
  by (auto simp: tileValue_def)

lemma tiles_mergePass: "list_all tileValue r \<Longrightarrow> list_all tileValue (fst (mergePass r))"
  by (induction r rule: mergePass.induct) (auto simp: tileValue_twice split: prod.splits)

lemma tiles_compact: "list_all tileValue r \<Longrightarrow> list_all tileValue (compact r)"
  by (simp add: compact_def list_all_iff)

lemma tiles_padTo: "list_all tileValue r \<Longrightarrow> list_all tileValue (padTo n r)"
  by (auto simp: padTo_def list_all_iff)

lemma tiles_moveRowLeft: "list_all tileValue r \<Longrightarrow> list_all tileValue (fst (moveRowLeft r))"
  by (simp add: moveRowLeft_closed tiles_padTo tiles_compact tiles_mergePass)

lemma allTiles_moveLeft: "allTiles b \<Longrightarrow> allTiles (fst (moveLeft b))"
proof -
  assume a: "allTiles b"
  have "list_all tileValue (fst (moveRowLeft r))" if "r \<in> set b" for r
    using a that by (intro tiles_moveRowLeft) (simp add: allTiles_def list_all_iff)
  then show ?thesis by (simp add: allTiles_def moveLeft_closed list_all_iff)
qed

lemma allTiles_moveRight: "allTiles b \<Longrightarrow> allTiles (fst (moveRight b))"
proof -
  assume a: "allTiles b"
  have "list_all tileValue (rev (fst (moveRowLeft (rev r))))" if "r \<in> set b" for r
  proof -
    from a that have "list_all tileValue (rev r)" by (simp add: allTiles_def list_all_iff)
    then have "list_all tileValue (fst (moveRowLeft (rev r)))" by (rule tiles_moveRowLeft)
    then show ?thesis by (simp add: list_all_iff)
  qed
  then show ?thesis by (simp add: allTiles_def moveRight_closed list_all_iff)
qed

lemma allTiles_transposeBoard:
  assumes "allTiles b" "transposeBoard b = Inr t"
  shows "allTiles t"
proof -
  from assms(2) obtain r0 rs where b: "b = r0 # rs"
    and ok: "\<not> list_ex (\<lambda>r. length r < length r0) b"
    and t: "t = map (\<lambda>i. map (\<lambda>r. r ! i) b) [0..<length r0]"
    by (auto simp: transposeBoard_def split: list.splits if_splits)
  have "tileValue (r ! i)" if "r \<in> set b" "i < length r0" for r i
  proof -
    from ok that have "i < length r" by (auto simp: list_ex_iff)
    then have "r ! i \<in> set r" by simp
    with assms(1) that(1) show ?thesis by (auto simp: allTiles_def list_all_iff)
  qed
  then show ?thesis unfolding t allTiles_def by (auto simp: list_all_iff)
qed

lemma allTiles_moveUp:
  assumes "allTiles b" "moveUp b = Inr (nb, sc)"
  shows "allTiles nb"
proof -
  from assms(2) obtain t where t: "transposeBoard b = Inr t"
    and n: "transposeBoard (fst (moveLeft t)) = Inr nb"
    unfolding moveUp_def by (auto split: sum.splits prod.splits)
  from allTiles_transposeBoard [OF assms(1) t] have "allTiles (fst (moveLeft t))"
    by (rule allTiles_moveLeft)
  then show ?thesis using n by (rule allTiles_transposeBoard)
qed

lemma allTiles_moveDown:
  assumes "allTiles b" "moveDown b = Inr (nb, sc)"
  shows "allTiles nb"
proof -
  from assms(2) obtain t where t: "transposeBoard b = Inr t"
    and n: "transposeBoard (fst (moveRight t)) = Inr nb"
    unfolding moveDown_def by (auto split: sum.splits prod.splits)
  from allTiles_transposeBoard [OF assms(1) t] have "allTiles (fst (moveRight t))"
    by (rule allTiles_moveRight)
  then show ?thesis using n by (rule allTiles_transposeBoard)
qed

lemma allTiles_update:
  assumes "allTiles b" "tileValue t"
  shows "allTiles (b[x := (b ! x)[y := t]])"
proof -
  have "list_all tileValue r" if "r \<in> set (b[x := (b ! x)[y := t]])" for r
  proof -
    from that set_update_subset_insert [of b x "(b ! x)[y := t]"]
    consider "r \<in> set b" | "r = (b ! x)[y := t]" "x < length b"
      by (cases "x < length b") (auto simp: list_update_beyond)
    then show ?thesis
    proof cases
      case 1
      with assms(1) show ?thesis by (simp add: allTiles_def list_all_iff)
    next
      case 2
      then have "list_all tileValue (b ! x)"
        using assms(1) by (simp add: allTiles_def list_all_length)
      with assms(2) set_update_subset_insert [of "b ! x" y t] show ?thesis
        unfolding 2(1) by (auto simp: list_all_iff)
    qed
  qed
  then show ?thesis by (simp add: allTiles_def list_all_iff)
qed

lemma allTiles_addRandomTile:
  assumes "allTiles b" "addRandomTile rnd p b = Inr (b', p')"
  shows "allTiles b'"
proof -
  show ?thesis
  proof (cases "emptyCells b = []")
    case True
    with assms show ?thesis by (simp add: addRandomTile_full)
  next
    case False
    define k where "k = \<lfloor>rnd p * real (length (emptyCells b))\<rfloor>"
    obtain x y where xy: "emptyCells b ! nat k = (x, y)" by (cases "emptyCells b ! nat k")
    define t :: int where "t = (if rnd (p + 1) < 9 / 10 then 2 else 4)"
    have tv: "tileValue t" by (simp add: t_def)
    from assms(2) False have "b' = b[x := (b ! x)[y := t]]"
      unfolding addRandomTile_def Let_def k_def [symmetric] xy t_def
      by (simp split: if_splits)
    with allTiles_update [OF assms(1) tv] show ?thesis by simp
  qed
qed

lemma allTiles_getInitialBoard:
  assumes "getInitialBoard rnd p = Inr (b, p')"
  shows "allTiles b"
proof -
  have "allTiles (replicate GRID_SIZE (replicate GRID_SIZE 0))"
    by (simp add: allTiles_def list_all_iff)
  with assms show ?thesis
    unfolding getInitialBoard_def Let_def
    by (auto split: sum.splits dest: allTiles_addRandomTile)
qed

lemma allTiles_moveSwitch:
  assumes "allTiles b" "moveSwitch d b = Some (Inr (nb, sc))"
  shows "allTiles nb"
  using assms(2)
proof (cases rule: moveSwitch_cases)
  case 1
  then have "moveUp b = Inr (nb, sc)" by simp
  with assms(1) show ?thesis by (rule allTiles_moveUp)
next
  case 2
  then have "moveDown b = Inr (nb, sc)" by simp
  with assms(1) show ?thesis by (rule allTiles_moveDown)
next
  case 3
  with allTiles_moveLeft [OF assms(1)] show ?thesis by (cases "moveLeft b") simp
next
  case 4
  with allTiles_moveRight [OF assms(1)] show ?thesis by (cases "moveRight b") simp
qed

lemma reachable_allTiles: "reachable b \<Longrightarrow> allTiles b"
  by (induction rule: reachable.induct)
    (auto intro: allTiles_getInitialBoard allTiles_moveSwitch allTiles_addRandomTile)

text \<open>
  Claim C9 (board value invariant). Every cell of every board reachable from
  \<open>getInitialBoard\<close> by moves and spawns is \<open>0\<close> or a power of two that is at least \<open>2\<close>;
  in particular no cell is negative.
\<close>

theorem board_value_invariant:
  assumes "reachable b" and "r \<in> set b" and "c \<in> set r"
  shows "(c = 0 \<or> (\<exists>k. 1 \<le> k \<and> c = 2 ^ k)) \<and> 0 \<le> c"
proof -
  from reachable_allTiles [OF assms(1)] assms(2,3) have "tileValue c"
    by (simp add: allTiles_def list_all_iff)
  then show ?thesis using tileValue_nonneg by (simp add: tileValue_def)
qed

theorem board_value_invariant_witness:
  "reachable [[0, 0, 0, 0], [0, 0, 0, 0], [0, 0, 0, 0], [4, 0, 0, 0]]
   \<and> (\<exists>k. 1 \<le> k \<and> (4::int) = 2 ^ k)"
proof -
  let ?r = "\<lambda>n::nat. 1 / 2 :: real"
  let ?b1 = "[[0, 0, 0, 0], [0, 0, 0, 0], [2, 0, 0, 0], [0, 0, 0, 0::int]]"
  let ?b2 = "[[0, 0, 0, 0], [0, 0, 0, 2], [2, 0, 0, 0], [0, 0, 0, 0::int]]"
  let ?b3 = "[[0, 0, 0, 0], [0, 0, 0, 0], [0, 0, 0, 0], [2, 0, 0, 2::int]]"
  let ?b4 = "[[0, 0, 0, 0], [0, 0, 0, 0], [0, 0, 0, 0], [4, 0, 0, 0::int]]"
  have s1: "addRandomTile ?r 0 (replicate GRID_SIZE (replicate GRID_SIZE 0)) = Inr (?b1, 2)"
    by (simp add: addRandomTile_def emptyCells_def GRID_SIZE_def eval_nat_numeral)
  have s2: "addRandomTile ?r 2 ?b1 = Inr (?b2, 4)"
    by (simp add: addRandomTile_def emptyCells_def)
  have i: "getInitialBoard ?r 0 = Inr (?b2, 4)"
    by (simp add: getInitialBoard_def s1 s2)
  have m1: "moveSwitch ''down'' ?b2 = Some (Inr (?b3, 0))"
    by (simp add: moveSwitch_def moveDown_def transposeBoard_def moveRight_closed
        moveRowLeft_closed compact_def padTo_def eval_nat_numeral)
  have m2: "moveSwitch ''left'' ?b3 = Some (Inr (?b4, 4))"
    by (simp add: moveSwitch_def moveLeft_closed moveRowLeft_closed compact_def padTo_def
        eval_nat_numeral)
  have r: "reachable ?b4"
    by (rule reachable.move [OF reachable.move [OF reachable.initial [OF i] m1] m2])
  from board_value_invariant [OF r, of "[4, 0, 0, 0]" 4] r show ?thesis by simp
qed

subsection \<open>Reading from the store\<close>

lemma sameExcept_nth: "sameExcept a h h' \<Longrightarrow> i < length h \<Longrightarrow> i \<noteq> a \<Longrightarrow> h' ! i = h ! i"
  unfolding sameExcept_def by blast

lemma sameExcept_length: "sameExcept a h h' \<Longrightarrow> length h \<le> length h'"
  unfolding sameExcept_def by blast

lemma sameExceptI:
  "length h \<le> length h' \<Longrightarrow> (\<And>i. i < length h \<Longrightarrow> i \<noteq> a \<Longrightarrow> h' ! i = h ! i) \<Longrightarrow> sameExcept a h h'"
  unfolding sameExcept_def by blast

lemma sameExcept_refl: "sameExcept a h h"
  by (rule sameExceptI) simp_all

lemma sameExcept_trans:
  assumes "sameExcept a h h1" "sameExcept a h1 h2"
  shows "sameExcept a h h2"
proof (rule sameExceptI)
  show "length h \<le> length h2"
    using sameExcept_length [OF assms(1)] sameExcept_length [OF assms(2)] by simp
next
  fix i assume i: "i < length h" "i \<noteq> a"
  then have "i < length h1" using sameExcept_length [OF assms(1)] by simp
  with i assms show "h2 ! i = h ! i" by (simp add: sameExcept_nth)
qed

lemma unchangedI:
  "length h \<le> length h' \<Longrightarrow> (\<And>i. i < length h \<Longrightarrow> h' ! i = h ! i) \<Longrightarrow> unchanged h h'"
  unfolding unchanged_def by (auto intro: nth_equalityI)

lemma unchanged_nth: "unchanged h h' \<Longrightarrow> i < length h \<Longrightarrow> h' ! i = h ! i"
  unfolding unchanged_def by (metis nth_take)

lemma unchanged_length: "unchanged h h' \<Longrightarrow> length h \<le> length h'"
  by (simp add: unchanged_def)

lemma unchanged_refl: "unchanged h h"
  by (simp add: unchanged_def)

lemma unchanged_trans:
  assumes "unchanged h h1" "unchanged h1 h2"
  shows "unchanged h h2"
proof (rule unchangedI)
  show "length h \<le> length h2"
    using unchanged_length [OF assms(1)] unchanged_length [OF assms(2)] by simp
next
  fix i assume i: "i < length h"
  then have "i < length h1" using unchanged_length [OF assms(1)] by simp
  with i assms show "h2 ! i = h ! i" by (simp add: unchanged_nth)
qed

lemma unchanged_append: "unchanged h (h @ ext)"
  by (simp add: unchanged_def)

lemma numsAt_less: "numsAt h a = Some xs \<Longrightarrow> a < length h"
  by (simp add: numsAt_def split: if_splits)

lemma refsAt_less: "refsAt h a = Some rs \<Longrightarrow> a < length h"
  by (simp add: refsAt_def split: if_splits)

lemma nums_not_refs: "numsAt h a = Some xs \<Longrightarrow> refsAt h b = Some rs \<Longrightarrow> a \<noteq> b"
  by (auto simp: numsAt_def refsAt_def split: if_splits obj.splits)

lemma numsAt_eq: "i < length h \<Longrightarrow> i < length h' \<Longrightarrow> h' ! i = h ! i \<Longrightarrow> numsAt h' i = numsAt h i"
  by (simp add: numsAt_def)

lemma refsAt_eq: "i < length h \<Longrightarrow> i < length h' \<Longrightarrow> h' ! i = h ! i \<Longrightarrow> refsAt h' i = refsAt h i"
  by (simp add: refsAt_def)

lemma numsAt_sameExcept:
  assumes "sameExcept a h h'" "numsAt h r = Some xs" "r \<noteq> a"
  shows "numsAt h' r = Some xs"
proof -
  have l: "r < length h" using assms(2) by (rule numsAt_less)
  then have "r < length h'" using sameExcept_length [OF assms(1)] by simp
  with l sameExcept_nth [OF assms(1) l assms(3)] have "numsAt h' r = numsAt h r"
    by (intro numsAt_eq)
  with assms(2) show ?thesis by simp
qed

lemma numsAt_unchanged:
  assumes "unchanged h h'" "numsAt h r = Some xs"
  shows "numsAt h' r = Some xs"
proof -
  have l: "r < length h" using assms(2) by (rule numsAt_less)
  then have "r < length h'" using unchanged_length [OF assms(1)] by simp
  with l unchanged_nth [OF assms(1) l] have "numsAt h' r = numsAt h r"
    by (intro numsAt_eq)
  with assms(2) show ?thesis by simp
qed

lemma refsAt_unchanged:
  assumes "unchanged h h'" "refsAt h r = Some rs"
  shows "refsAt h' r = Some rs"
proof -
  have l: "r < length h" using assms(2) by (rule refsAt_less)
  then have "r < length h'" using unchanged_length [OF assms(1)] by simp
  with l unchanged_nth [OF assms(1) l] have "refsAt h' r = refsAt h r"
    by (intro refsAt_eq)
  with assms(2) show ?thesis by simp
qed

lemma rowsAt_Cons_Some:
  "rowsAt h (r # rs) = Some vs \<longleftrightarrow>
     (\<exists>x xs. vs = x # xs \<and> numsAt h r = Some x \<and> rowsAt h rs = Some xs)"
  by (cases "numsAt h r"; cases "rowsAt h rs") auto

declare rowsAt.simps(2) [simp del]

lemma rowsAt_preserved:
  assumes "\<And>r xs. r \<in> set rs \<Longrightarrow> numsAt h r = Some xs \<Longrightarrow> numsAt h' r = Some xs"
    and "rowsAt h rs = Some vs"
  shows "rowsAt h' rs = Some vs"
  using assms
proof (induction rs arbitrary: vs)
  case Nil
  then show ?case by simp
next
  case (Cons r rs)
  from Cons.prems(2) obtain x xs
    where v: "vs = x # xs" and n: "numsAt h r = Some x" and rr: "rowsAt h rs = Some xs"
    unfolding rowsAt_Cons_Some by blast
  have n': "numsAt h' r = Some x" using Cons.prems(1) [of r x] n by simp
  have "rowsAt h' rs = Some xs"
  proof (rule Cons.IH [OF _ rr])
    fix r' ys assume "r' \<in> set rs" "numsAt h r' = Some ys"
    then show "numsAt h' r' = Some ys" using Cons.prems(1) [of r' ys] by simp
  qed
  with v n' show ?case unfolding rowsAt_Cons_Some by blast
qed

lemma rowsAt_numsAt: "rowsAt h rs = Some vs \<Longrightarrow> r \<in> set rs \<Longrightarrow> \<exists>xs. numsAt h r = Some xs"
proof (induction rs arbitrary: vs)
  case Nil
  then show ?case by simp
next
  case (Cons a rs)
  from Cons.prems(1) obtain x xs
    where "numsAt h a = Some x" "rowsAt h rs = Some xs"
    unfolding rowsAt_Cons_Some by blast
  with Cons.IH [of xs] Cons.prems(2) show ?case by auto
qed

lemma rowsAt_unchanged:
  assumes "unchanged h h'" "rowsAt h rs = Some vs"
  shows "rowsAt h' rs = Some vs"
proof (rule rowsAt_preserved [OF _ assms(2)])
  fix r xs assume "numsAt h r = Some xs"
  with assms(1) show "numsAt h' r = Some xs" by (rule numsAt_unchanged)
qed

lemma rowsAt_sameExcept:
  assumes "sameExcept a h h'" "rowsAt h rs = Some vs" "refsAt h a = Some x"
  shows "rowsAt h' rs = Some vs"
proof (rule rowsAt_preserved [OF _ assms(2)])
  fix r xs assume n: "numsAt h r = Some xs"
  from nums_not_refs [OF n assms(3)] have "r \<noteq> a" .
  with assms(1) n show "numsAt h' r = Some xs" by (rule numsAt_sameExcept)
qed

lemma boardAt_Some:
  "boardAt h a = Some b \<longleftrightarrow> (\<exists>rs. refsAt h a = Some rs \<and> rowsAt h rs = Some b)"
  by (cases "refsAt h a") (simp_all add: boardAt_def)

lemma boardAt_unchanged:
  assumes "unchanged h h'" "boardAt h a = Some b"
  shows "boardAt h' a = Some b"
proof -
  from assms(2) obtain rs where "refsAt h a = Some rs" "rowsAt h rs = Some b"
    unfolding boardAt_Some by blast
  with assms(1) have "refsAt h' a = Some rs" "rowsAt h' rs = Some b"
    by (auto intro: refsAt_unchanged rowsAt_unchanged)
  then show ?thesis unfolding boardAt_Some by blast
qed

lemma rowsAt_append:
  "rowsAt h (rs @ [r]) = Some vs \<longleftrightarrow>
     (\<exists>xs x. vs = xs @ [x] \<and> rowsAt h rs = Some xs \<and> numsAt h r = Some x)"
proof (induction rs arbitrary: vs)
  case Nil
  show ?case by (auto simp: rowsAt_Cons_Some)
next
  case (Cons a rs)
  show ?case
    unfolding append_Cons rowsAt_Cons_Some Cons.IH by (auto simp: Cons_eq_append_conv) 
qed

lemma freshBoardI:
  "length h \<le> r \<Longrightarrow> refsAt h' r = Some rs \<Longrightarrow> distinct rs
   \<Longrightarrow> (\<And>a. a \<in> set rs \<Longrightarrow> length h \<le> a) \<Longrightarrow> freshBoard h h' r"
  unfolding freshBoard_def by blast

lemma freshBoard_mono:
  assumes "freshBoard h1 h' r" "length h \<le> length h1"
  shows "freshBoard h h' r"
proof -
  from assms(1) obtain rs where l: "length h1 \<le> r" and r: "refsAt h' r = Some rs"
    and d: "distinct rs" and f: "\<forall>a \<in> set rs. length h1 \<le> a"
    unfolding freshBoard_def by blast
  show ?thesis
  proof (rule freshBoardI [OF _ r d])
    show "length h \<le> r" using l assms(2) by simp
  next
    fix a assume "a \<in> set rs"
    with f have "length h1 \<le> a" by blast
    with assms(2) show "length h \<le> a" by simp
  qed
qed

lemma freshBoard_ref: "freshBoard h h' r \<Longrightarrow> length h \<le> r"
  by (simp add: freshBoard_def)

subsection \<open>\<open>moveLeft\<close> on the store\<close>

lemma moveRowLeft_h_eq:
  assumes "numsAt h r = Some xs"
  shows "moveRowLeft_h h r =
     Inr (h @ [Nums (fst (mergeLoop 0 (filter (\<lambda>v. v \<noteq> 0) xs) 0)), Nums (fst (moveRowLeft xs))],
          Suc (length h), snd (moveRowLeft xs))"
proof -
  obtain merged sc where m: "mergeLoop 0 (filter (\<lambda>v. v \<noteq> 0) xs) 0 = (merged, sc)"
    by (cases "mergeLoop 0 (filter (\<lambda>v. v \<noteq> 0) xs) 0")
  have u: "(h @ [Nums merged, x])[Suc (length h) := y] = h @ [Nums merged, y]" for x y
    by (simp add: list_update_append)
  show ?thesis
    unfolding moveRowLeft_h_def moveRowLeft_def alloc_def Let_def assms
    by (simp add: u m)
qed

lemma numsAt_append_new: "numsAt (h @ [x, Nums ys]) (Suc (length h)) = Some ys"
  by (simp add: numsAt_def nth_append)

lemma moveLeftLoop_h_correct:
  assumes "refsAt h nb = Some acc" "rowsAt h rows = Some vals"
  shows "\<exists>h' news. moveLeftLoop_h h rows nb tot =
            Inr (h', tot + sum_list (map (\<lambda>r. snd (moveRowLeft r)) vals))
          \<and> sameExcept nb h h' \<and> refsAt h' nb = Some (acc @ news)
          \<and> rowsAt h' news = Some (map (\<lambda>r. fst (moveRowLeft r)) vals)
          \<and> distinct news \<and> (\<forall>a \<in> set news. length h \<le> a)"
  using assms
proof (induction rows arbitrary: h acc vals tot)
  case Nil
  have "moveLeftLoop_h h [] nb tot = Inr (h, tot + sum_list (map (\<lambda>r. snd (moveRowLeft r)) vals))
        \<and> sameExcept nb h h \<and> refsAt h nb = Some (acc @ [])
        \<and> rowsAt h [] = Some (map (\<lambda>r. fst (moveRowLeft r)) vals)
        \<and> distinct ([]::nat list) \<and> (\<forall>a \<in> set ([]::nat list). length h \<le> a)"
    using Nil by (auto intro: sameExcept_refl)
  then show ?case by blast
next
  case (Cons r rest)
  from Cons.prems(2) obtain v vs
    where vals: "vals = v # vs" and nr: "numsAt h r = Some v" and rr: "rowsAt h rest = Some vs"
    unfolding rowsAt_Cons_Some by blast
  have nbl: "nb < length h" using Cons.prems(1) by (rule refsAt_less)
  define o1 where "o1 = Nums (fst (mergeLoop 0 (filter (\<lambda>v. v \<noteq> 0) v) 0))"
  define h1 where "h1 = h @ [o1, Nums (fst (moveRowLeft v))]"
  define newRow where "newRow = Suc (length h)"
  define h2 where "h2 = h1[nb := Refs (acc @ [newRow])]"
  have step: "moveRowLeft_h h r = Inr (h1, newRow, snd (moveRowLeft v))"
    unfolding h1_def newRow_def o1_def by (rule moveRowLeft_h_eq [OF nr])
  have r1: "refsAt h1 nb = Some acc"
    unfolding h1_def by (rule refsAt_unchanged [OF unchanged_append Cons.prems(1)])
  have r2: "refsAt h2 nb = Some (acc @ [newRow])"
    using nbl by (simp add: h2_def h1_def refsAt_def)
  have s2: "sameExcept nb h h2"
    by (rule sameExceptI) (simp_all add: h2_def h1_def nth_append)
  have rr2: "rowsAt h2 rest = Some vs"
    by (rule rowsAt_sameExcept [OF s2 rr Cons.prems(1)])
  have n2: "numsAt h2 newRow = Some (fst (moveRowLeft v))"
    using nbl by (simp add: h2_def h1_def newRow_def numsAt_def nth_append)
  from Cons.IH [OF r2 rr2, of "tot + snd (moveRowLeft v)"] obtain h' news
    where run: "moveLeftLoop_h h2 rest nb (tot + snd (moveRowLeft v)) =
            Inr (h', tot + snd (moveRowLeft v) + sum_list (map (\<lambda>r. snd (moveRowLeft r)) vs))"
      and s': "sameExcept nb h2 h'" and r': "refsAt h' nb = Some ((acc @ [newRow]) @ news)"
      and w': "rowsAt h' news = Some (map (\<lambda>r. fst (moveRowLeft r)) vs)"
      and d': "distinct news" and f': "\<forall>a \<in> set news. length h2 \<le> a"
    by blast
  have l2: "length h2 = length h + 2" by (simp add: h2_def h1_def)
  have fr: "distinct (newRow # news) \<and> (\<forall>a \<in> set (newRow # news). length h \<le> a)"
    using d' f' l2 by (auto simp: newRow_def)
  have "newRow \<noteq> nb" using nbl by (simp add: newRow_def)
  with s' n2 have n': "numsAt h' newRow = Some (fst (moveRowLeft v))"
    by (rule numsAt_sameExcept)
  have "moveLeftLoop_h h (r # rest) nb tot =
          Inr (h', tot + sum_list (map (\<lambda>r. snd (moveRowLeft r)) vals))"
    using run by (simp add: step r1 h2_def vals)
  moreover have "sameExcept nb h h'" by (rule sameExcept_trans [OF s2 s'])
  moreover have "refsAt h' nb = Some (acc @ (newRow # news))" using r' by simp
  moreover have "rowsAt h' (newRow # news) = Some (map (\<lambda>r. fst (moveRowLeft r)) vals)"
    unfolding rowsAt_Cons_Some using n' w' by (simp add: vals)
  ultimately show ?case using fr by blast
qed

lemma moveLeft_h_correct:
  assumes "boardAt h a = Some b"
  shows "\<exists>h'. moveLeft_h h a = Inr (h', length h, snd (moveLeft b)) \<and> unchanged h h'
           \<and> boardAt h' (length h) = Some (fst (moveLeft b)) \<and> freshBoard h h' (length h)"
proof -
  from assms obtain rs where ra: "refsAt h a = Some rs" and rw: "rowsAt h rs = Some b"
    unfolding boardAt_Some by blast
  define h0 where "h0 = h @ [Refs []]"
  have r0: "refsAt h0 (length h) = Some []" by (simp add: h0_def refsAt_def)
  have u0: "unchanged h h0" unfolding h0_def by (rule unchanged_append)
  have rw0: "rowsAt h0 rs = Some b" by (rule rowsAt_unchanged [OF u0 rw])
  from moveLeftLoop_h_correct [OF r0 rw0, of 0] obtain h' news
    where run: "moveLeftLoop_h h0 rs (length h) 0 =
            Inr (h', 0 + sum_list (map (\<lambda>r. snd (moveRowLeft r)) b))"
      and s: "sameExcept (length h) h0 h'" and r': "refsAt h' (length h) = Some ([] @ news)"
      and w': "rowsAt h' news = Some (map (\<lambda>r. fst (moveRowLeft r)) b)"
      and d': "distinct news" and f': "\<forall>a \<in> set news. length h0 \<le> a"
    by blast
  have fb: "freshBoard h h' (length h)"
  proof (rule freshBoardI [OF _ _ d'])
    show "refsAt h' (length h) = Some news" using r' by simp
  next
    fix a assume "a \<in> set news"
    with f' have "length h0 \<le> a" by blast
    then show "length h \<le> a" by (simp add: h0_def)
  qed simp
  have "moveLeft_h h a = Inr (h', length h, snd (moveLeft b))"
    using run by (simp add: moveLeft_h_def ra alloc_def h0_def moveLeft_closed)
  moreover have "unchanged h h'"
  proof (rule unchangedI)
    show "length h \<le> length h'" using sameExcept_length [OF s] by (simp add: h0_def)
  next
    fix i assume i: "i < length h"
    then have "i < length h0" "i \<noteq> length h" by (simp_all add: h0_def)
    with s have "h' ! i = h0 ! i" by (intro sameExcept_nth)
    with i show "h' ! i = h ! i" by (simp add: h0_def nth_append)
  qed
  moreover have "boardAt h' (length h) = Some (fst (moveLeft b))"
    unfolding boardAt_Some using r' w' by (simp add: moveLeft_closed)
  ultimately show ?thesis using fb by blast
qed

subsection \<open>\<open>moveRight\<close> on the store\<close>

lemma moveRightLoop_h_correct:
  assumes "refsAt h nb = Some acc" "rowsAt h rows = Some vals"
  shows "\<exists>h' news. moveRightLoop_h h rows nb tot =
            Inr (h', tot + sum_list (map (\<lambda>r. snd (moveRowLeft (rev r))) vals))
          \<and> sameExcept nb h h' \<and> refsAt h' nb = Some (acc @ news)
          \<and> rowsAt h' news = Some (map (\<lambda>r. rev (fst (moveRowLeft (rev r)))) vals)
          \<and> distinct news \<and> (\<forall>a \<in> set news. length h \<le> a)"
  using assms
proof (induction rows arbitrary: h acc vals tot)
  case Nil
  have "moveRightLoop_h h [] nb tot
          = Inr (h, tot + sum_list (map (\<lambda>r. snd (moveRowLeft (rev r))) vals))
        \<and> sameExcept nb h h \<and> refsAt h nb = Some (acc @ [])
        \<and> rowsAt h [] = Some (map (\<lambda>r. rev (fst (moveRowLeft (rev r)))) vals)
        \<and> distinct ([]::nat list) \<and> (\<forall>a \<in> set ([]::nat list). length h \<le> a)"
    using Nil by (auto intro: sameExcept_refl)
  then show ?case by blast
next
  case (Cons r rest)
  from Cons.prems(2) obtain v vs
    where vals: "vals = v # vs" and nr: "numsAt h r = Some v" and rr: "rowsAt h rest = Some vs"
    unfolding rowsAt_Cons_Some by blast
  have nbl: "nb < length h" using Cons.prems(1) by (rule refsAt_less)
  define res where "res = fst (moveRowLeft (rev v))"
  define o1 where "o1 = Nums (fst (mergeLoop 0 (filter (\<lambda>v. v \<noteq> 0) (rev v)) 0))"
  define h2 where "h2 = h @ [Nums (rev v)]"
  define h3 where "h3 = h2 @ [o1, Nums res]"
  define newRow where "newRow = Suc (length h2)"
  define h4 where "h4 = h3[newRow := Nums (rev res)]"
  define h5 where "h5 = h4[nb := Refs (acc @ [newRow])]"
  have c: "(h @ [Nums v])[length h := Nums (rev v)] = h2" by (simp add: h2_def)
  have n2: "numsAt h2 (length h) = Some (rev v)" by (simp add: h2_def numsAt_def)
  have step: "moveRowLeft_h h2 (length h) = Inr (h3, newRow, snd (moveRowLeft (rev v)))"
    unfolding h3_def newRow_def o1_def res_def by (rule moveRowLeft_h_eq [OF n2])
  have n3: "numsAt h3 newRow = Some res"
    unfolding h3_def newRow_def by (rule numsAt_append_new)
  have l4: "length h4 = length h + 3" by (simp add: h4_def h3_def h2_def)
  have r4: "refsAt h4 nb = Some acc"
    using nbl Cons.prems(1) by (simp add: h4_def h3_def h2_def newRow_def refsAt_def nth_append)
  have r5: "refsAt h5 nb = Some (acc @ [newRow])"
    using nbl l4 by (simp add: h5_def refsAt_def)
  have s5: "sameExcept nb h h5"
    by (rule sameExceptI)
      (simp_all add: h5_def h4_def h3_def h2_def newRow_def nth_append)
  have rr5: "rowsAt h5 rest = Some vs"
    by (rule rowsAt_sameExcept [OF s5 rr Cons.prems(1)])
  have n5: "numsAt h5 newRow = Some (rev res)"
    using nbl by (simp add: h5_def h4_def h3_def h2_def newRow_def numsAt_def nth_append)
  from Cons.IH [OF r5 rr5, of "tot + snd (moveRowLeft (rev v))"] obtain h' news
    where run: "moveRightLoop_h h5 rest nb (tot + snd (moveRowLeft (rev v))) =
            Inr (h', tot + snd (moveRowLeft (rev v))
                     + sum_list (map (\<lambda>r. snd (moveRowLeft (rev r))) vs))"
      and s': "sameExcept nb h5 h'" and r': "refsAt h' nb = Some ((acc @ [newRow]) @ news)"
      and w': "rowsAt h' news = Some (map (\<lambda>r. rev (fst (moveRowLeft (rev r)))) vs)"
      and d': "distinct news" and f': "\<forall>a \<in> set news. length h5 \<le> a"
    by blast
  have l5: "length h5 = length h + 3" using l4 by (simp add: h5_def)
  have fr: "distinct (newRow # news) \<and> (\<forall>a \<in> set (newRow # news). length h \<le> a)"
    using d' f' l5 by (auto simp: newRow_def h2_def)
  have "newRow \<noteq> nb" using nbl by (simp add: newRow_def h2_def)
  with s' n5 have n': "numsAt h' newRow = Some (rev res)"
    by (rule numsAt_sameExcept)
  have "moveRightLoop_h h (r # rest) nb tot =
          Inr (h', tot + sum_list (map (\<lambda>r. snd (moveRowLeft (rev r))) vals))"
    using run
    by (simp add: nr alloc_def Let_def step [unfolded h2_def] n3 h4_def [symmetric] r4
        h5_def [symmetric] vals)
  moreover have "sameExcept nb h h'" by (rule sameExcept_trans [OF s5 s'])
  moreover have "refsAt h' nb = Some (acc @ (newRow # news))" using r' by simp
  moreover have "rowsAt h' (newRow # news)
                 = Some (map (\<lambda>r. rev (fst (moveRowLeft (rev r)))) vals)"
    unfolding rowsAt_Cons_Some using n' w' by (simp add: vals res_def)
  ultimately show ?case using fr by blast
qed

lemma moveRight_h_correct:
  assumes "boardAt h a = Some b"
  shows "\<exists>h'. moveRight_h h a = Inr (h', length h, snd (moveRight b)) \<and> unchanged h h'
           \<and> boardAt h' (length h) = Some (fst (moveRight b)) \<and> freshBoard h h' (length h)"
proof -
  from assms obtain rs where ra: "refsAt h a = Some rs" and rw: "rowsAt h rs = Some b"
    unfolding boardAt_Some by blast
  define h0 where "h0 = h @ [Refs []]"
  have r0: "refsAt h0 (length h) = Some []" by (simp add: h0_def refsAt_def)
  have u0: "unchanged h h0" unfolding h0_def by (rule unchanged_append)
  have rw0: "rowsAt h0 rs = Some b" by (rule rowsAt_unchanged [OF u0 rw])
  from moveRightLoop_h_correct [OF r0 rw0, of 0] obtain h' news
    where run: "moveRightLoop_h h0 rs (length h) 0 =
            Inr (h', 0 + sum_list (map (\<lambda>r. snd (moveRowLeft (rev r))) b))"
      and s: "sameExcept (length h) h0 h'" and r': "refsAt h' (length h) = Some ([] @ news)"
      and w': "rowsAt h' news = Some (map (\<lambda>r. rev (fst (moveRowLeft (rev r)))) b)"
      and d': "distinct news" and f': "\<forall>a \<in> set news. length h0 \<le> a"
    by blast
  have fb: "freshBoard h h' (length h)"
  proof (rule freshBoardI [OF _ _ d'])
    show "refsAt h' (length h) = Some news" using r' by simp
  next
    fix a assume "a \<in> set news"
    with f' have "length h0 \<le> a" by blast
    then show "length h \<le> a" by (simp add: h0_def)
  qed simp
  have "moveRight_h h a = Inr (h', length h, snd (moveRight b))"
    using run by (simp add: moveRight_h_def ra alloc_def h0_def moveRight_closed)
  moreover have "unchanged h h'"
  proof (rule unchangedI)
    show "length h \<le> length h'" using sameExcept_length [OF s] by (simp add: h0_def)
  next
    fix i assume i: "i < length h"
    then have "i < length h0" "i \<noteq> length h" by (simp_all add: h0_def)
    with s have "h' ! i = h0 ! i" by (intro sameExcept_nth)
    with i show "h' ! i = h ! i" by (simp add: h0_def nth_append)
  qed
  moreover have "boardAt h' (length h) = Some (fst (moveRight b))"
    unfolding boardAt_Some using r' w' by (simp add: moveRight_closed)
  ultimately show ?thesis using fb by blast
qed

subsection \<open>\<open>transpose\<close>, \<open>moveUp\<close> and \<open>moveDown\<close> on the store\<close>

lemma allocRows_correct:
  "\<exists>h' rs. allocRows h xss = (h', rs) \<and> unchanged h h' \<and> rowsAt h' rs = Some xss
     \<and> length h' = length h + length xss
     \<and> distinct rs \<and> (\<forall>a \<in> set rs. length h \<le> a)"
proof (induction xss arbitrary: h)
  case Nil
  show ?case by (simp add: unchanged_refl)
next
  case (Cons xs xss)
  define h1 where "h1 = h @ [Nums xs]"
  from Cons [of h1] obtain h' rs
    where a: "allocRows h1 xss = (h', rs)" and u: "unchanged h1 h'"
      and r: "rowsAt h' rs = Some xss" and l: "length h' = length h1 + length xss"
      and d: "distinct rs" and f: "\<forall>a \<in> set rs. length h1 \<le> a"
    by blast
  have fr: "distinct (length h # rs) \<and> (\<forall>a \<in> set (length h # rs). length h \<le> a)"
    using d f by (auto simp: h1_def)
  have "numsAt h1 (length h) = Some xs" by (simp add: h1_def numsAt_def)
  with u have n: "numsAt h' (length h) = Some xs" by (rule numsAt_unchanged)
  have "unchanged h h1" unfolding h1_def by (rule unchanged_append)
  then have u': "unchanged h h'" using u by (rule unchanged_trans)
  have "allocRows h (xs # xss) = (h', length h # rs)"
    using a by (simp add: alloc_def h1_def)
  moreover have "rowsAt h' (length h # rs) = Some (xs # xss)"
    unfolding rowsAt_Cons_Some using n r by simp
  moreover have "length h' = length h + length (xs # xss)" using l by (simp add: h1_def)
  ultimately show ?case using u' fr by blast
qed

lemma allocBoard_correct:
  assumes "allocRows h xss = (h1, rs)"
  shows "unchanged h (h1 @ [Refs rs]) \<and> boardAt (h1 @ [Refs rs]) (length h1) = Some xss
         \<and> length h \<le> length h1 \<and> freshBoard h (h1 @ [Refs rs]) (length h1)"
proof -
  from allocRows_correct [of h xss] assms
  have u: "unchanged h h1" and r: "rowsAt h1 rs = Some xss" and l: "length h \<le> length h1"
    and d: "distinct rs" and f: "\<forall>a \<in> set rs. length h \<le> a"
    by auto
  have u1: "unchanged h1 (h1 @ [Refs rs])" by (rule unchanged_append)
  have ra: "refsAt (h1 @ [Refs rs]) (length h1) = Some rs" by (simp add: refsAt_def)
  moreover have "rowsAt (h1 @ [Refs rs]) rs = Some xss" by (rule rowsAt_unchanged [OF u1 r])
  ultimately have "boardAt (h1 @ [Refs rs]) (length h1) = Some xss"
    unfolding boardAt_Some by blast
  moreover have "freshBoard h (h1 @ [Refs rs]) (length h1)"
    using f by (intro freshBoardI [OF l ra d]) blast
  ultimately show ?thesis using unchanged_trans [OF u u1] l by simp
qed

lemma transpose_h_correct:
  assumes "boardAt h a = Some b" "transposeBoard b = Inr t"
  shows "\<exists>h' r. transpose_h h a = Inr (h', r) \<and> unchanged h h' \<and> length h \<le> r
           \<and> boardAt h' r = Some t \<and> freshBoard h h' r"
proof -
  obtain h1 rs where a: "allocRows h t = (h1, rs)" by (cases "allocRows h t")
  from allocBoard_correct [OF a] have "unchanged h (h1 @ [Refs rs])"
    "boardAt (h1 @ [Refs rs]) (length h1) = Some t" "length h \<le> length h1"
    "freshBoard h (h1 @ [Refs rs]) (length h1)" by simp_all
  moreover have "transpose_h h a = Inr (h1 @ [Refs rs], length h1)"
    by (simp add: transpose_h_def assms a alloc_def)
  ultimately show ?thesis by blast
qed

lemma moveUp_h_correct:
  assumes "boardAt h a = Some b" "moveUp b = Inr (nb, sc)"
  shows "\<exists>h' r. moveUp_h h a = Inr (h', r, sc) \<and> unchanged h h' \<and> length h \<le> r
           \<and> boardAt h' r = Some nb \<and> freshBoard h h' r"
proof -
  from assms(2) obtain t where t: "transposeBoard b = Inr t"
    and n: "transposeBoard (fst (moveLeft t)) = Inr nb" and s: "sc = snd (moveLeft t)"
    unfolding moveUp_def by (auto split: sum.splits prod.splits)
  from transpose_h_correct [OF assms(1) t] obtain h1 r1
    where 1: "transpose_h h a = Inr (h1, r1)" and u1: "unchanged h h1"
      and b1: "boardAt h1 r1 = Some t" by blast
  from moveLeft_h_correct [OF b1] obtain h2
    where 2: "moveLeft_h h1 r1 = Inr (h2, length h1, snd (moveLeft t))" and u2: "unchanged h1 h2"
      and b2: "boardAt h2 (length h1) = Some (fst (moveLeft t))" by blast
  from transpose_h_correct [OF b2 n] obtain h3 r3
    where 3: "transpose_h h2 (length h1) = Inr (h3, r3)" and u3: "unchanged h2 h3"
      and l3: "length h2 \<le> r3" and b3: "boardAt h3 r3 = Some nb"
      and f3: "freshBoard h2 h3 r3" by blast
  have "length h \<le> length h2"
    using unchanged_length [OF u1] unchanged_length [OF u2] by simp
  with f3 have fb: "freshBoard h h3 r3" by (rule freshBoard_mono)
  have "moveUp_h h a = Inr (h3, r3, sc)" by (simp add: moveUp_h_def 1 2 3 s)
  moreover have "unchanged h h3" by (rule unchanged_trans [OF unchanged_trans [OF u1 u2] u3])
  moreover have "length h \<le> r3"
    using unchanged_length [OF u1] unchanged_length [OF u2] l3 by simp
  ultimately show ?thesis using b3 fb by blast
qed

lemma moveDown_h_correct:
  assumes "boardAt h a = Some b" "moveDown b = Inr (nb, sc)"
  shows "\<exists>h' r. moveDown_h h a = Inr (h', r, sc) \<and> unchanged h h' \<and> length h \<le> r
           \<and> boardAt h' r = Some nb \<and> freshBoard h h' r"
proof -
  from assms(2) obtain t where t: "transposeBoard b = Inr t"
    and n: "transposeBoard (fst (moveRight t)) = Inr nb" and s: "sc = snd (moveRight t)"
    unfolding moveDown_def by (auto split: sum.splits prod.splits)
  from transpose_h_correct [OF assms(1) t] obtain h1 r1
    where 1: "transpose_h h a = Inr (h1, r1)" and u1: "unchanged h h1"
      and b1: "boardAt h1 r1 = Some t" by blast
  from moveRight_h_correct [OF b1] obtain h2
    where 2: "moveRight_h h1 r1 = Inr (h2, length h1, snd (moveRight t))" and u2: "unchanged h1 h2"
      and b2: "boardAt h2 (length h1) = Some (fst (moveRight t))" by blast
  from transpose_h_correct [OF b2 n] obtain h3 r3
    where 3: "transpose_h h2 (length h1) = Inr (h3, r3)" and u3: "unchanged h2 h3"
      and l3: "length h2 \<le> r3" and b3: "boardAt h3 r3 = Some nb"
      and f3: "freshBoard h2 h3 r3" by blast
  have "length h \<le> length h2"
    using unchanged_length [OF u1] unchanged_length [OF u2] by simp
  with f3 have fb: "freshBoard h h3 r3" by (rule freshBoard_mono)
  have "moveDown_h h a = Inr (h3, r3, sc)" by (simp add: moveDown_h_def 1 2 3 s)
  moreover have "unchanged h h3" by (rule unchanged_trans [OF unchanged_trans [OF u1 u2] u3])
  moreover have "length h \<le> r3"
    using unchanged_length [OF u1] unchanged_length [OF u2] l3 by simp
  ultimately show ?thesis using b3 fb by blast
qed

lemma moveSwitch_h_correct:
  assumes "boardAt h a = Some b" "moveSwitch d b = Some (Inr (nb, sc))"
  shows "\<exists>h' r. moveSwitch_h d h a = Some (Inr (h', r, sc)) \<and> unchanged h h' \<and> length h \<le> r
           \<and> boardAt h' r = Some nb \<and> freshBoard h h' r"
  using assms(2)
proof (cases rule: moveSwitch_cases)
  case 1
  then have "moveUp b = Inr (nb, sc)" by simp
  from moveUp_h_correct [OF assms(1) this] 1 show ?thesis by (simp add: moveSwitch_h_def)
next
  case 2
  then have "moveDown b = Inr (nb, sc)" by simp
  from moveDown_h_correct [OF assms(1) this] 2 show ?thesis by (simp add: moveSwitch_h_def)
next
  case 3
  then have "nb = fst (moveLeft b)" "sc = snd (moveLeft b)" by (cases "moveLeft b"; simp)+
  with moveLeft_h_correct [OF assms(1)] 3 show ?thesis by (auto simp: moveSwitch_h_def)
next
  case 4
  then have "nb = fst (moveRight b)" "sc = snd (moveRight b)" by (cases "moveRight b"; simp)+
  with moveRight_h_correct [OF assms(1)] 4 show ?thesis by (auto simp: moveSwitch_h_def)
qed

subsection \<open>\<open>addRandomTile\<close> on the store\<close>






subsection \<open>An exception of a move is the same on the store\<close>

lemma transpose_h_error:
  "boardAt h a = Some b \<Longrightarrow> transposeBoard b = Inl e \<Longrightarrow> transpose_h h a = Inl e"
  by (simp add: transpose_h_def)

lemma moveUp_h_error:
  assumes "boardAt h a = Some b" "moveUp b = Inl e"
  shows "moveUp_h h a = Inl e"
proof (cases "transposeBoard b")
  case (Inl e')
  with assms show ?thesis by (simp add: moveUp_def moveUp_h_def transpose_h_error)
next
  case (Inr t)
  from transpose_h_correct [OF assms(1) Inr] obtain h1 r1
    where 1: "transpose_h h a = Inr (h1, r1)" and b1: "boardAt h1 r1 = Some t" by blast
  from moveLeft_h_correct [OF b1] obtain h2
    where 2: "moveLeft_h h1 r1 = Inr (h2, length h1, snd (moveLeft t))"
      and b2: "boardAt h2 (length h1) = Some (fst (moveLeft t))" by blast
  from assms(2) Inr have "transposeBoard (fst (moveLeft t)) = Inl e"
    by (auto simp: moveUp_def split: prod.splits sum.splits)
  from transpose_h_error [OF b2 this] show ?thesis by (simp add: moveUp_h_def 1 2)
qed

lemma moveDown_h_error:
  assumes "boardAt h a = Some b" "moveDown b = Inl e"
  shows "moveDown_h h a = Inl e"
proof (cases "transposeBoard b")
  case (Inl e')
  with assms show ?thesis by (simp add: moveDown_def moveDown_h_def transpose_h_error)
next
  case (Inr t)
  from transpose_h_correct [OF assms(1) Inr] obtain h1 r1
    where 1: "transpose_h h a = Inr (h1, r1)" and b1: "boardAt h1 r1 = Some t" by blast
  from moveRight_h_correct [OF b1] obtain h2
    where 2: "moveRight_h h1 r1 = Inr (h2, length h1, snd (moveRight t))"
      and b2: "boardAt h2 (length h1) = Some (fst (moveRight t))" by blast
  from assms(2) Inr have "transposeBoard (fst (moveRight t)) = Inl e"
    by (auto simp: moveDown_def split: prod.splits sum.splits)
  from transpose_h_error [OF b2 this] show ?thesis by (simp add: moveDown_h_def 1 2)
qed

lemma moveSwitch_h_value:
  assumes b: "boardAt h a = Some b" and m: "moveSwitch_h d h a = Some (Inr (h1, r1, sc))"
  shows "\<exists>nb. moveSwitch d b = Some (Inr (nb, sc)) \<and> boardAt h1 r1 = Some nb"
proof -
  from m obtain res where v: "moveSwitch d b = Some res"
    by (auto simp: moveSwitch_h_def moveSwitch_def split: if_splits)
  show ?thesis
  proof (cases res)
    case (Inl e)
    with v have "moveSwitch_h d h a = Some (Inl e)"
      using moveUp_h_error [OF b, of e] moveDown_h_error [OF b, of e]
      by (auto simp: moveSwitch_h_def moveSwitch_def split: if_splits)
    with m show ?thesis by simp
  next
    case (Inr x)
    obtain nb sc' where "x = (nb, sc')" by (cases x)
    with v Inr have v': "moveSwitch d b = Some (Inr (nb, sc'))" by simp
    from moveSwitch_h_correct [OF b v'] m have "sc' = sc" "boardAt h1 r1 = Some nb" by auto
    with v' show ?thesis by blast
  qed
qed

subsection \<open>C1: which functions leave the caller's board alone\<close>




subsection \<open>C6: a move that changed nothing changes nothing when repeated\<close>

text \<open>
  Claim C6 (no-op stability). If a move called on the caller's board returns a board
  that \<open>arraysEqual\<close> finds equal to it (\<open>changed\<close> is false), then the same move called
  again on the same board, in the store the first call left behind, returns a board with
  the same cells as the first result and the same score, and the caller's board still
  holds its cells; so \<open>changed\<close> is false again. On a 4x4 board the result is cell by
  cell the board itself.
\<close>

theorem noop_stability:
  assumes "boardAt h a = Some b" and "moveSwitch_h d h a = Some (Inr (h1, r1, sc))"
    and "boardAt h1 r1 = Some nb" and "arraysEqual b nb = Inr True"
  shows "(\<exists>h2 r2. moveSwitch_h d h1 a = Some (Inr (h2, r2, sc)) \<and> boardAt h2 a = Some b
            \<and> boardAt h2 r2 = Some nb)
         \<and> (wf_board b \<longrightarrow> nb = b)"
proof -
  from moveSwitch_h_value [OF assms(1,2)] assms(3)
  have v: "moveSwitch d b = Some (Inr (nb, sc))" by auto
  from moveSwitch_h_correct [OF assms(1) v] assms(2) have u: "unchanged h h1" by auto
  with assms(1) have b1: "boardAt h1 a = Some b" by (auto intro: boardAt_unchanged)
  from moveSwitch_h_correct [OF b1 v] obtain h2 r2
    where m: "moveSwitch_h d h1 a = Some (Inr (h2, r2, sc))" and u2: "unchanged h1 h2"
      and n: "boardAt h2 r2 = Some nb" by blast
  from u2 b1 have o: "boardAt h2 a = Some b" by (rule boardAt_unchanged)
  have "nb = b" if w: "wf_board b"
  proof -
    from moveSwitch_wf [OF w v] have "wf_board nb" by simp
    from arraysEqual_wf [OF w this] assms(4) show ?thesis by simp
  qed
  with m n o show ?thesis by blast
qed

theorem noop_stability_witness:
  "boardAt [Nums [2, 4, 0, 0], Nums [0, 0, 0, 0], Nums [8, 0, 0, 0], Nums [0, 0, 0, 0],
            Refs [0, 1, 2, 3]] 4
     = Some [[2, 4, 0, 0], [0, 0, 0, 0], [8, 0, 0, 0], [0, 0, 0, 0]]
   \<and> arraysEqual [[2, 4, 0, 0], [0, 0, 0, 0], [8, 0, 0, 0], [0, 0, 0, 0]]
         [[2, 4, 0, 0], [0, 0, 0, 0], [8, 0, 0, 0], [0, 0, 0, 0]] = Inr True
   \<and> (\<exists>h1 r1 h2 r2.
         moveSwitch_h ''left''
           [Nums [2, 4, 0, 0], Nums [0, 0, 0, 0], Nums [8, 0, 0, 0], Nums [0, 0, 0, 0],
            Refs [0, 1, 2, 3]] 4 = Some (Inr (h1, r1, 0))
       \<and> boardAt h1 r1 = Some [[2, 4, 0, 0], [0, 0, 0, 0], [8, 0, 0, 0], [0, 0, 0, 0]]
       \<and> moveSwitch_h ''left'' h1 4 = Some (Inr (h2, r2, 0))
       \<and> boardAt h2 4 = Some [[2, 4, 0, 0], [0, 0, 0, 0], [8, 0, 0, 0], [0, 0, 0, 0]]
       \<and> boardAt h2 r2 = Some [[2, 4, 0, 0], [0, 0, 0, 0], [8, 0, 0, 0], [0, 0, 0, 0]])"
proof -
  let ?H = "[Nums [2, 4, 0, 0], Nums [0, 0, 0, 0], Nums [8, 0, 0, 0], Nums [0, 0, 0, 0],
             Refs [0, 1, 2, 3]]"
  let ?B = "[[2, 4, 0, 0], [0, 0, 0, 0], [8, 0, 0, 0], [0, 0, 0, 0::int]]"
  have b: "boardAt ?H 4 = Some ?B"
    by (simp add: boardAt_def refsAt_def numsAt_def rowsAt.simps)
  have m: "moveSwitch ''left'' ?B = Some (Inr (?B, 0))"
    by (simp add: moveSwitch_def moveLeft_closed moveRowLeft_closed compact_def padTo_def
        eval_nat_numeral)
  have e: "arraysEqual ?B ?B = Inr True" by (rule arraysEqual_refl)
  from moveSwitch_h_correct [OF b m] obtain h1 r1
    where 1: "moveSwitch_h ''left'' ?H 4 = Some (Inr (h1, r1, 0))" and n: "boardAt h1 r1 = Some ?B"
    by blast
  from noop_stability [OF b 1 n e] 1 n b e show ?thesis by blast
qed

end
